theory Spec2Isabelle
  imports Main "HOL-Library.Word"
begin

unbundle bit_operations_syntax

section \<open>Byte/bit codec\<close>

text \<open>
  A Go \<^verbatim>\<open>byte\<close> is an 8-bit word. Go's \<^verbatim>\<open>int\<close> is modelled by \<^typ>\<open>int\<close>: the
  program only compares lengths and addresses and builds values below \<open>2 ^ 16\<close>, so no
  arithmetic of the source can wrap.
\<close>

type_synonym byte = "8 word"

text \<open>
  \<^verbatim>\<open>convertBytesTo16BitInts\<close>: the \<^verbatim>\<open>for i := 0; i < len(bytes); i += 2\<close> loop, with
  the slice \<open>result\<close> it appends to. Both reads \<open>bytes[i]\<close> and \<open>bytes[i+1]\<close> are guarded
  by the loop condition and the inner test, so no index is out of range.
\<close>

function conv16_loop :: "nat \<Rightarrow> byte list \<Rightarrow> int list \<Rightarrow> int list" where
  "conv16_loop i bytes result =
     (if i < length bytes then
        (if i + 1 < length bytes
         then conv16_loop (i + 2) bytes
                (result @ [push_bit 8 (uint (bytes ! i)) OR uint (bytes ! (i + 1))])
         else conv16_loop (i + 2) bytes (result @ [uint (bytes ! i)]))
      else result)"
  by pat_completeness auto
termination
  by (relation "measure (\<lambda>(i, bytes, result). length bytes - i)") auto

declare conv16_loop.simps [simp del]

definition convertBytesTo16BitInts :: "byte list \<Rightarrow> int list" where
  "convertBytesTo16BitInts bytes = conv16_loop 0 bytes []"

text \<open>
  The same grouping by structural recursion over pairs; used to reason about the loop.
\<close>

fun pairs16 :: "byte list \<Rightarrow> int list" where
  "pairs16 (hi # lo # rest) = (push_bit 8 (uint hi) OR uint lo) # pairs16 rest"
| "pairs16 [b] = [uint b]"
| "pairs16 [] = []"

text \<open>
  The bit decoding inside the polling loop of \<^verbatim>\<open>startMonitoring\<close>:
  \<^verbatim>\<open>bits := make([]bool, totalBits)\<close>, then for every byte \<open>b\<close> at index \<open>i\<close> and every
  \<open>j < 8\<close> the store \<^verbatim>\<open>bits[i*8+j] = (b>>(7-j))&1 == 1\<close>. A store outside the slice
  panics in Go; here it yields \<open>None\<close>.
\<close>

definition store_bit :: "bool list \<Rightarrow> nat \<Rightarrow> bool \<Rightarrow> bool list option" where
  "store_bit bits pos v = (if pos < length bits then Some (bits[pos := v]) else None)"

function bits_inner :: "nat \<Rightarrow> byte \<Rightarrow> nat \<Rightarrow> bool list \<Rightarrow> bool list option" where
  "bits_inner i b j bits =
     (if j < 8 then
        (case store_bit bits (i * 8 + j) (drop_bit (7 - j) b AND 1 = 1) of
           None \<Rightarrow> None
         | Some bits' \<Rightarrow> bits_inner i b (j + 1) bits')
      else Some bits)"
  by pat_completeness auto
termination
  by (relation "measure (\<lambda>(i, b, j, bits). 8 - j)") auto

declare bits_inner.simps [simp del]

fun bits_outer :: "nat \<Rightarrow> byte list \<Rightarrow> bool list \<Rightarrow> bool list option" where
  "bits_outer i [] bits = Some bits"
| "bits_outer i (b # data) bits =
     (case bits_inner i b 0 bits of
        None \<Rightarrow> None
      | Some bits' \<Rightarrow> bits_outer (i + 1) data bits')"

text \<open>
  \<open>decode_bits bytesToRead data\<close> is the block as the loop runs it, with
  \<open>totalBits = bytesToRead * 8\<close>; \<^verbatim>\<open>make\<close> of a negative length panics.
\<close>

definition decode_bits :: "int \<Rightarrow> byte list \<Rightarrow> bool list option" where
  "decode_bits bytesToRead data =
     (let totalBits = bytesToRead * 8
      in if totalBits < 0 then None
         else bits_outer 0 data (replicate (nat totalBits) False))"

text \<open>
  The codec function \<open>toBits\<close> of the specification is this block run on a byte sequence
  of its own length (the loop always has \<open>len(data) = bytesToRead\<close>).
\<close>

definition toBits :: "byte list \<Rightarrow> bool list option" where
  "toBits data = decode_bits (int (length data)) data"

text \<open>The eight bits of one byte, most significant first.\<close>

definition byte_bits :: "byte \<Rightarrow> bool list" where
  "byte_bits b = map (\<lambda>j. bit b (7 - j)) [0..<8]"

text \<open>
  Regrouping as the specification words it: eight booleans at a time, each group read as
  a byte with the first boolean as the most significant bit. Not part of the source.
\<close>

definition pack8 :: "bool list \<Rightarrow> byte" where
  "pack8 bs = foldl (\<lambda>acc b. 2 * acc + of_bool b) 0 bs"

fun regroup8 :: "bool list \<Rightarrow> byte list" where
  "regroup8 (b7 # b6 # b5 # b4 # b3 # b2 # b1 # b0 # rest) =
     pack8 [b7, b6, b5, b4, b3, b2, b1, b0] # regroup8 rest"
| "regroup8 _ = []"


section \<open>Session manager\<close>

text \<open>
  The transport library and the device behind it are not part of the program. A handler
  is the value \<^verbatim>\<open>connectPLC\<close> configures (address, rack, slot, the two timeouts in
  milliseconds); a client is identified with the handler it was built on.
\<close>

record TCPClientHandler =
  Address :: string
  Rack :: int
  Slot :: int
  Timeout :: nat
  IdleTimeout :: nat

definition defaultRack :: int where
  "defaultRack = 0"

definition defaultSlot :: int where
  "defaultSlot = 1"

text \<open>
  The errors the program builds with \<^verbatim>\<open>fmt.Errorf\<close>: the connect failure wrapping the
  transport's message, the not-connected error, and the read error that formats both
  underlying messages.
\<close>

datatype error =
    ConnectError string
  | NotConnectedError
  | ReadError string string

text \<open>What a call yields: a value, a returned error, or a run-time panic.\<close>

datatype 'a outcome = Ok 'a | Err error | Panic

text \<open>
  Everything the program does to the outside, in order: transport calls, the sleep, log
  lines of the polling loop and invocations of the sink.
\<close>

datatype event =
    EvConnect TCPClientHandler
  | EvClose TCPClientHandler
  | EvSleep nat
  | EvReadDB TCPClientHandler int int int
  | EvReadMB TCPClientHandler int int
  | EvLog error
  | EvSink "bool list"

text \<open>
  The transport as a parameter. Each operation may depend on everything that happened
  before (the trace) and answers with an optional error message (\<open>None\<close> is Go's
  \<^verbatim>\<open>nil\<close>) and, for reads, the bytes it writes into the caller's buffer.
\<close>

record plc =
  Connect :: "event list \<Rightarrow> TCPClientHandler \<Rightarrow> string option"
  AGReadDB :: "event list \<Rightarrow> TCPClientHandler \<Rightarrow> int \<Rightarrow> int \<Rightarrow> int \<Rightarrow> string option \<times> byte list"
  AGReadMB :: "event list \<Rightarrow> TCPClientHandler \<Rightarrow> int \<Rightarrow> int \<Rightarrow> string option \<times> byte list"

text \<open>
  A callee receives the slice header by value: it can overwrite the elements of the
  caller's buffer and cannot change its length. \<open>copy_into buffer data\<close> is the buffer
  after the callee wrote \<open>data\<close> from index 0, as Go's \<^verbatim>\<open>copy\<close> does; any in-place
  change of the buffer is of this form.
\<close>

definition copy_into :: "byte list \<Rightarrow> byte list \<Rightarrow> byte list" where
  "copy_into buffer data = take (length buffer) data @ drop (length data) buffer"

type_synonym chan = nat

datatype status = Live | Returned | Crashed

text \<open>
  One goroutine launched by \<^verbatim>\<open>startMonitoring\<close>: the channel, address, length and
  sink it captured (\<open>l_sink\<close> is false for a \<^verbatim>\<open>nil\<close> callback) and whether it is still
  in its loop.
\<close>

record loop =
  l_stop :: chan
  l_start :: int
  l_len :: int
  l_sink :: bool
  l_status :: status

text \<open>The struct. \<open>mu\<close> is true while the mutex is held.\<close>

record PLCBinaryViewer =
  client :: "TCPClientHandler option"
  handler :: "TCPClientHandler option"
  running :: bool
  stopChan :: chan
  mu :: bool

text \<open>
  The rest of the process: the trace, the number of channels made so far (\<^verbatim>\<open>make\<close>
  returns a channel distinct from all earlier ones), the channels that were closed, and
  the polling goroutines in the order they were launched.
\<close>

record world =
  trace :: "event list"
  made :: nat
  closed :: "chan set"
  loops :: "loop list"

type_synonym state = "PLCBinaryViewer \<times> world"

definition world0 :: world where
  "world0 = \<lparr>trace = [], made = 0, closed = {}, loops = []\<rparr>"

definition emit :: "event \<Rightarrow> world \<Rightarrow> world" where
  "emit e w = w\<lparr>trace := trace w @ [e]\<rparr>"

definition NewPLCBinaryViewer :: "world \<Rightarrow> state" where
  "NewPLCBinaryViewer w =
     (\<lparr>client = None, handler = None, running = False, stopChan = made w, mu = False\<rparr>,
      w\<lparr>made := made w + 1\<rparr>)"

text \<open>
  \<^verbatim>\<open>sync.Mutex\<close> is not reentrant. The model runs one call at a time, so a \<^verbatim>\<open>Lock\<close>
  that finds the mutex held is a lock by the flow that holds it already: nothing will
  release it and the call never returns, which is the value \<open>None\<close>.
\<close>

definition Lock :: "PLCBinaryViewer \<Rightarrow> PLCBinaryViewer option" where
  "Lock p = (if mu p then None else Some (p\<lparr>mu := True\<rparr>))"

text \<open>Every \<^verbatim>\<open>Unlock\<close> of the program follows a \<^verbatim>\<open>Lock\<close> of the same call.\<close>

definition Unlock :: "PLCBinaryViewer \<Rightarrow> PLCBinaryViewer" where
  "Unlock p = p\<lparr>mu := False\<rparr>"

text \<open>\<^verbatim>\<open>disconnectPLC\<close>; the deferred unlock runs on return.\<close>

fun disconnectPLC :: "state \<Rightarrow> state option" where
  "disconnectPLC (p, w) =
     (case Lock p of
        None \<Rightarrow> None
      | Some p1 \<Rightarrow>
          if client p1 \<noteq> None then
            let w1 = (case handler p1 of Some h \<Rightarrow> emit (EvClose h) w | None \<Rightarrow> w);
                p2 = p1\<lparr>client := None\<rparr>;
                p3 = p2\<lparr>handler := None\<rparr>
            in Some (Unlock p3, w1)
          else Some (Unlock p1, w))"

text \<open>
  \<^verbatim>\<open>connectPLC\<close>. It takes the mutex, and with a client present calls
  \<^verbatim>\<open>disconnectPLC\<close> (which takes the mutex itself) and sleeps 100 ms; then it builds
  the handler and connects. The result is the returned error, \<open>None\<close> for \<^verbatim>\<open>nil\<close>.
\<close>

fun connectPLC :: "plc \<Rightarrow> string \<Rightarrow> state \<Rightarrow> (error option \<times> state) option" where
  "connectPLC env ip (p, w) =
     (case Lock p of
        None \<Rightarrow> None
      | Some p1 \<Rightarrow>
          (case (if client p1 \<noteq> None
                 then (case disconnectPLC (p1, w) of
                         None \<Rightarrow> None
                       | Some (p2, w2) \<Rightarrow> Some (p2, emit (EvSleep 100) w2))
                 else Some (p1, w)) of
             None \<Rightarrow> None
           | Some (p3, w3) \<Rightarrow>
               let h = \<lparr>Address = ip, Rack = defaultRack, Slot = defaultSlot,
                        Timeout = 5000, IdleTimeout = 60000\<rparr>;
                   w4 = emit (EvConnect h) w3
               in (case Connect env (trace w3) h of
                     Some err \<Rightarrow> Some (Some (ConnectError err), Unlock p3, w4)
                   | None \<Rightarrow>
                       let p4 = p3\<lparr>handler := Some h\<rparr>;
                           p5 = p4\<lparr>client := Some h\<rparr>
                       in Some (None, Unlock p5, w4))))"

text \<open>
  \<^verbatim>\<open>readVArea\<close>: the client is read under the mutex, which is released before the
  test; \<^verbatim>\<open>make([]byte, size)\<close> panics for a negative size (\<open>sz\<close> here); the
  data-block read is tried on block 1 and, when it fails, the flat-memory read on the
  same buffer.
\<close>

fun readVArea :: "plc \<Rightarrow> int \<Rightarrow> int \<Rightarrow> state \<Rightarrow> (byte list outcome \<times> state) option" where
  "readVArea env startByte sz (p, w) =
     (case Lock p of
        None \<Rightarrow> None
      | Some p1 \<Rightarrow>
          let c = client p1; p2 = Unlock p1
          in (case c of
                None \<Rightarrow> Some (Err NotConnectedError, p2, w)
              | Some h \<Rightarrow>
                  if sz < 0 then Some (Panic, p2, w)
                  else
                    let buffer = replicate (nat sz) 0;
                        (err, data) = AGReadDB env (trace w) h 1 startByte sz;
                        buffer1 = copy_into buffer data;
                        w1 = emit (EvReadDB h 1 startByte sz) w
                    in (case err of
                          None \<Rightarrow> Some (Ok buffer1, p2, w1)
                        | Some e \<Rightarrow>
                            let (err2, data2) = AGReadMB env (trace w1) h startByte sz;
                                buffer2 = copy_into buffer1 data2;
                                w2 = emit (EvReadMB h startByte sz) w1
                            in (case err2 of
                                  None \<Rightarrow> Some (Ok buffer2, p2, w2)
                                | Some e2 \<Rightarrow> Some (Err (ReadError e e2), p2, w2)))))"

text \<open>\<^verbatim>\<open>readOnce\<close>: the two clamping tests, then \<^verbatim>\<open>readVArea\<close>.\<close>

definition readOnce :: "plc \<Rightarrow> int \<Rightarrow> int \<Rightarrow> state \<Rightarrow> (byte list outcome \<times> state) option" where
  "readOnce env startAddress len s =
     (let bytesToRead = len;
          bytesToRead = (if bytesToRead \<le> 0 then 1 else bytesToRead);
          maxBytes = 80;
          bytesToRead = (if bytesToRead > maxBytes then maxBytes else bytesToRead)
      in (case readVArea env startAddress bytesToRead s of
            None \<Rightarrow> None
          | Some (Err e, s') \<Rightarrow> Some (Err e, s')
          | Some (r, s') \<Rightarrow> Some (r, s')))"

section \<open>Poller\<close>

text \<open>
  \<^verbatim>\<open>startMonitoring\<close>. The test of the flag, its setting and the new channel happen
  under the mutex; the goroutine launched after the unlock is recorded in the same step.
\<close>

fun startMonitoring :: "int \<Rightarrow> int \<Rightarrow> bool \<Rightarrow> state \<Rightarrow> state option" where
  "startMonitoring startAddress len updateFunc (p, w) =
     (case Lock p of
        None \<Rightarrow> None
      | Some p1 \<Rightarrow>
          if running p1 then Some (Unlock p1, w)
          else
            let p2 = p1\<lparr>running := True\<rparr>;
                c = made w;
                w1 = w\<lparr>made := made w + 1\<rparr>;
                p3 = p2\<lparr>stopChan := c\<rparr>;
                p4 = Unlock p3;
                g = \<lparr>l_stop = c, l_start = startAddress, l_len = len,
                     l_sink = updateFunc, l_status = Live\<rparr>
            in Some (p4, w1\<lparr>loops := loops w1 @ [g]\<rparr>))"

text \<open>
  \<^verbatim>\<open>stopMonitoring\<close>. Closing a channel that is closed already panics in Go (and
  the mutex, unlocked without \<^verbatim>\<open>defer\<close>, would stay held).
\<close>

fun stopMonitoring :: "state \<Rightarrow> (unit outcome \<times> state) option" where
  "stopMonitoring (p, w) =
     (case Lock p of
        None \<Rightarrow> None
      | Some p1 \<Rightarrow>
          if running p1 then
            (if stopChan p1 \<in> closed w then Some (Panic, p1, w)
             else
               let w1 = w\<lparr>closed := insert (stopChan p1) (closed w)\<rparr>;
                   p2 = p1\<lparr>running := False\<rparr>
               in Some (Ok (), Unlock p2, w1))
          else Some (Ok (), Unlock p1, w))"

definition set_status :: "nat \<Rightarrow> status \<Rightarrow> world \<Rightarrow> world" where
  "set_status i st w = w\<lparr>loops := (loops w)[i := (loops w ! i)\<lparr>l_status := st\<rparr>]\<rparr>"

text \<open>
  The body of the \<^verbatim>\<open>case <-ticker.C\<close> branch for goroutine \<open>i\<close>: clamp to 1..4, read,
  on an error log it and \<^verbatim>\<open>continue\<close>, otherwise decode the bits and call the sink
  when there is one. A panic would end the goroutine (and the process); it is recorded
  as \<open>Crashed\<close>.
\<close>

fun tick :: "plc \<Rightarrow> nat \<Rightarrow> state \<Rightarrow> state option" where
  "tick env i (p, w) =
     (let g = loops w ! i;
          bytesToRead = l_len g;
          bytesToRead = (if bytesToRead \<le> 0 then 1 else bytesToRead);
          bytesToRead = (if bytesToRead > 4 then 4 else bytesToRead)
      in (case readVArea env (l_start g) bytesToRead (p, w) of
            None \<Rightarrow> None
          | Some (Err e, p', w') \<Rightarrow> Some (p', emit (EvLog e) w')
          | Some (Panic, p', w') \<Rightarrow> Some (p', set_status i Crashed w')
          | Some (Ok data, p', w') \<Rightarrow>
              (case decode_bits bytesToRead data of
                 None \<Rightarrow> Some (p', set_status i Crashed w')
               | Some bits \<Rightarrow>
                   Some (p', if l_sink g then emit (EvSink bits) w' else w'))))"

text \<open>
  One round of the goroutine's \<^verbatim>\<open>select\<close>. Nothing is ever sent on the stop
  channel, so its receive completes only once the channel is closed, and then the
  goroutine returns; the ticker case runs the tick. \<open>None\<close> also stands for a case that
  cannot be taken and for a goroutine that is not in its loop any more.
\<close>

datatype select = RecvStop | RecvTick

fun loop_step :: "plc \<Rightarrow> nat \<Rightarrow> select \<Rightarrow> state \<Rightarrow> state option" where
  "loop_step env i c (p, w) =
     (if i < length (loops w) \<and> l_status (loops w ! i) = Live then
        (case c of
           RecvStop \<Rightarrow>
             if l_stop (loops w ! i) \<in> closed w then Some (p, set_status i Returned w)
             else None
         | RecvTick \<Rightarrow> tick env i (p, w))
      else None)"

text \<open>
  Histories of one viewer: the calls the user interface can make and the rounds of the
  polling goroutines, one after the other. A step that never returns, panics or cannot
  be taken has no successor.
\<close>

datatype action =
    DoConnect string
  | DoDisconnect
  | DoReadOnce int int
  | DoStart int int bool
  | DoStop
  | DoLoop nat select

fun step :: "plc \<Rightarrow> action \<Rightarrow> state \<Rightarrow> state option" where
  "step env (DoConnect ip) s = map_option snd (connectPLC env ip s)"
| "step env DoDisconnect s = disconnectPLC s"
| "step env (DoReadOnce a n) s =
     (case readOnce env a n s of
        None \<Rightarrow> None
      | Some (Panic, s') \<Rightarrow> None
      | Some (r, s') \<Rightarrow> Some s')"
| "step env (DoStart a n f) s = startMonitoring a n f s"
| "step env DoStop s =
     (case stopMonitoring s of
        None \<Rightarrow> None
      | Some (Ok u, s') \<Rightarrow> Some s'
      | Some (r, s') \<Rightarrow> None)"
| "step env (DoLoop i c) s = loop_step env i c s"

fun run :: "plc \<Rightarrow> action list \<Rightarrow> state \<Rightarrow> state option" where
  "run env [] s = Some s"
| "run env (a # as) s = (case step env a s of None \<Rightarrow> None | Some s' \<Rightarrow> run env as s')"

text \<open>
  The loops that are running: every goroutine that is still in its loop, whether or not
  its cancellation signal has been fired. \<^verbatim>\<open>stopMonitoring\<close> does not wait for the
  goroutine it cancels, which stays in its loop until its \<^verbatim>\<open>select\<close> takes the stop
  case.
\<close>

definition live_loops :: "world \<Rightarrow> loop list" where
  "live_loops w = filter (\<lambda>g. l_status g = Live) (loops w)"

text \<open>The running loops whose cancellation signal has not been fired.\<close>

definition uncancelled_loops :: "world \<Rightarrow> loop list" where
  "uncancelled_loops w =
     filter (\<lambda>g. l_status g = Live \<and> l_stop g \<notin> closed w) (loops w)"

text \<open>The running loops whose signal has been fired and that have not returned yet.\<close>

definition lingering_loops :: "world \<Rightarrow> loop list" where
  "lingering_loops w =
     filter (\<lambda>g. l_status g = Live \<and> l_stop g \<in> closed w) (loops w)"

text \<open>What holds of the poller in every state a history reaches.\<close>

definition poller_inv :: "state \<Rightarrow> bool" where
  "poller_inv s =
     (let p = fst s; w = snd s in
      \<not> mu p \<and> stopChan p < made w \<and>
      (\<forall>c \<in> closed w. c < made w) \<and>
      (\<forall>g \<in> set (loops w). l_stop g < made w \<and> l_status g \<noteq> Crashed) \<and>
      distinct (map l_stop (loops w)) \<and>
      (running p \<longrightarrow> stopChan p \<notin> closed w \<and>
         (\<exists>g \<in> set (loops w). l_stop g = stopChan p \<and> l_status g = Live)) \<and>
      (\<forall>g \<in> set (loops w). l_stop g \<notin> closed w \<longrightarrow> running p \<and> l_stop g = stopChan p))"

text \<open>
  Two states differ at most in the connection and the trace: the poller's flag, its
  channel, the mutex, and the channels and goroutines of the process are the same.
\<close>

definition same_poller :: "state \<Rightarrow> state \<Rightarrow> bool" where
  "same_poller s s' \<longleftrightarrow>
     running (fst s') = running (fst s) \<and> stopChan (fst s') = stopChan (fst s) \<and>
     mu (fst s') = mu (fst s) \<and>
     made (snd s') = made (snd s) \<and> closed (snd s') = closed (snd s) \<and>
     loops (snd s') = loops (snd s)"

subsection \<open>Concrete instances\<close>

text \<open>
  Transports and states on which the results below are exercised: a device that answers
  every data-block read with bytes \<open>0xB0\<close>, one that only answers flat-memory reads,
  the handler \<^verbatim>\<open>connectPLC\<close> builds for the default address of the user interface,
  and the state after a first successful connect.
\<close>

definition plc_up :: plc where
  "plc_up =
     \<lparr>Connect = (\<lambda>tr h. None),
      AGReadDB = (\<lambda>tr h db start n. (None, replicate (nat n) 176)),
      AGReadMB = (\<lambda>tr h start n. (Some ''mb'', []))\<rparr>"

definition plc_flat :: plc where
  "plc_flat =
     \<lparr>Connect = (\<lambda>tr h. None),
      AGReadDB = (\<lambda>tr h db start n. (Some ''db'', [])),
      AGReadMB = (\<lambda>tr h start n. (None, replicate (nat n) 176))\<rparr>"

definition handler0 :: TCPClientHandler where
  "handler0 =
     \<lparr>Address = ''192.168.1.11'', Rack = 0, Slot = 1, Timeout = 5000, IdleTimeout = 60000\<rparr>"

definition connected0 :: state where
  "connected0 =
     (\<lparr>client = Some handler0, handler = Some handler0, running = False, stopChan = 0,
       mu = False\<rparr>,
      \<lparr>trace = [EvConnect handler0], made = 1, closed = {}, loops = []\<rparr>)"

text \<open>
  A fresh viewer on which \<^verbatim>\<open>startMonitoring(100, 1, sink)\<close> was called, and the same
  after \<^verbatim>\<open>stopMonitoring\<close>; the viewer was never connected, so every read fails.
\<close>

definition loop0 :: loop where
  "loop0 = \<lparr>l_stop = 1, l_start = 100, l_len = 1, l_sink = True, l_status = Live\<rparr>"

definition polling0 :: state where
  "polling0 =
     (\<lparr>client = None, handler = None, running = True, stopChan = 1, mu = False\<rparr>,
      \<lparr>trace = [], made = 2, closed = {}, loops = [loop0]\<rparr>)"

definition stopped0 :: state where
  "stopped0 =
     (\<lparr>client = None, handler = None, running = False, stopChan = 1, mu = False\<rparr>,
      \<lparr>trace = [], made = 2, closed = {1}, loops = [loop0]\<rparr>)"

text \<open>
  The same viewer after a further \<^verbatim>\<open>startMonitoring(100, 1, sink)\<close>: the first
  goroutine, cancelled, has not returned yet and the second has been launched.
\<close>

definition loop1 :: loop where
  "loop1 = \<lparr>l_stop = 2, l_start = 100, l_len = 1, l_sink = True, l_status = Live\<rparr>"

definition restarted0 :: state where
  "restarted0 =
     (\<lparr>client = None, handler = None, running = True, stopChan = 2, mu = False\<rparr>,
      \<lparr>trace = [], made = 3, closed = {1}, loops = [loop0, loop1]\<rparr>)"

declare readVArea.simps [simp del] tick.simps [simp del] connectPLC.simps [simp del]
  disconnectPLC.simps [simp del] startMonitoring.simps [simp del]
  stopMonitoring.simps [simp del] loop_step.simps [simp del]

section \<open>Properties of the codec\<close>

lemma conv16_loop_pairs16:
  "conv16_loop i bytes result = result @ pairs16 (drop i bytes)"
proof (induction i bytes result rule: conv16_loop.induct)
  case (1 i bytes result)
  show ?case
  proof (cases "i < length bytes")
    case False
    then show ?thesis by (simp add: conv16_loop.simps [of i])
  next
    case lt: True
    show ?thesis
    proof (cases "i + 1 < length bytes")
      case True
      have d: "drop i bytes = bytes ! i # bytes ! (i + 1) # drop (i + 2) bytes"
        using True lt by (simp add: Cons_nth_drop_Suc)
      show ?thesis
        using "1.IH"(1) [OF lt True] lt True
        by (simp add: conv16_loop.simps [of i] d)
    next
      case False
      have d: "drop i bytes = [bytes ! i]"
        using False lt by (metis Cons_nth_drop_Suc Suc_eq_plus1 drop_all linorder_not_less)
      show ?thesis
        using "1.IH"(2) [OF lt False] lt False
        by (simp add: conv16_loop.simps [of i] d)
    qed
  qed
qed

lemma convert_eq_pairs16: "convertBytesTo16BitInts bytes = pairs16 bytes"
  by (simp add: convertBytesTo16BitInts_def conv16_loop_pairs16)

lemma length_pairs16: "length (pairs16 bs) = (length bs + 1) div 2"
  by (induction bs rule: pairs16.induct) simp_all

lemma pairs16_nth_pair:
  "2 * k + 1 < length bs \<Longrightarrow>
   pairs16 bs ! k = push_bit 8 (uint (bs ! (2 * k))) OR uint (bs ! (2 * k + 1))"
proof (induction bs arbitrary: k rule: pairs16.induct)
  case (1 hi lo rest)
  then show ?case by (cases k) simp_all
qed simp_all

lemma pairs16_nth_last:
  "odd (length bs) \<Longrightarrow> pairs16 bs ! (length bs div 2) = uint (bs ! (length bs - 1))"
proof (induction bs rule: pairs16.induct)
  case (1 hi lo rest)
  then have "rest \<noteq> []" by auto
  then have "(lo # rest) ! length rest = rest ! (length rest - 1)"
    by (simp add: nth_Cons')
  with 1 show ?case by simp
qed simp_all

lemma pair_value_range:
  "0 \<le> push_bit 8 (uint (hi :: byte)) OR uint (lo :: byte) \<and>
   push_bit 8 (uint hi) OR uint lo < 65536"
proof -
  have h: "uint hi < 256" and l: "uint lo < 256"
    using uint_bounded [of hi] uint_bounded [of lo] by simp_all
  have a: "push_bit 8 (uint hi) < 2 ^ 16"
    using h by (simp add: push_bit_eq_mult)
  have b: "uint lo < 2 ^ 16" using l by simp
  have c: "0 \<le> push_bit 8 (uint hi)" by simp
  have "push_bit 8 (uint hi) OR uint lo < 2 ^ 16"
    using c a b by (rule OR_upper)
  then show ?thesis by simp
qed

lemma pairs16_range: "v \<in> set (pairs16 bs) \<Longrightarrow> 0 \<le> v \<and> v < 65536"
proof (induction bs rule: pairs16.induct)
  case (1 hi lo rest)
  then show ?case using pair_value_range [of hi lo] by auto
next
  case (2 b)
  then show ?case using uint_bounded [of b] by simp
qed simp

lemma test_bit_eq: "(drop_bit n (b :: byte) AND 1 = 1) = bit b n"
  by (simp add: and_one_eq bit_iff_odd_drop_bit mod_2_eq_odd)

lemma pack8_byte_bits: "pack8 (byte_bits b) = b"
proof -
  have u: "[0..<8] = [0, 1, 2, 3, 4, 5, 6, 7 :: nat]"
    by (simp add: upt_rec)
  have "b = take_bit 8 b" by (simp add: take_bit_word_eq_self)
  also have "\<dots> = horner_sum of_bool 2 (map (bit b) [0..<8])"
    by (simp only: horner_sum_bit_eq_take_bit)
  also have "\<dots> = pack8 (byte_bits b)"
    by (simp add: u pack8_def byte_bits_def algebra_simps)
  finally show ?thesis by simp
qed

lemma regroup8_concat: "regroup8 (concat (map byte_bits B)) = B"
proof (induction B)
  case Nil
  then show ?case by simp
next
  case (Cons b B)
  have u: "[0..<8] = [0, 1, 2, 3, 4, 5, 6, 7 :: nat]"
    by (simp add: upt_rec)
  have e: "byte_bits b = [bit b 7, bit b 6, bit b 5, bit b 4, bit b 3, bit b 2, bit b 1, bit b 0]"
    by (simp add: byte_bits_def u)
  have "regroup8 (byte_bits b @ concat (map byte_bits B)) =
        pack8 (byte_bits b) # regroup8 (concat (map byte_bits B))"
    by (simp add: e)
  then show ?case using Cons by (simp add: pack8_byte_bits)
qed

lemma bits_inner_eq:
  "i * 8 + 8 \<le> length bits \<Longrightarrow> j \<le> 8 \<Longrightarrow>
   bits_inner i b j bits =
     Some (take (i * 8 + j) bits @ map (\<lambda>k. bit b (7 - k)) [j..<8] @ drop (i * 8 + 8) bits)"
proof (induction i b j bits rule: bits_inner.induct)
  case (1 i b j bits)
  show ?case
  proof (cases "j < 8")
    case False
    with 1 have "j = 8" by simp
    then show ?thesis by (simp add: bits_inner.simps [of i b 8])
  next
    case True
    let ?v = "drop_bit (7 - j) b AND 1 = 1"
    let ?bits' = "bits[i * 8 + j := ?v]"
    have pos: "i * 8 + j < length bits" using True "1.prems" by simp
    have st: "store_bit bits (i * 8 + j) ?v = Some ?bits'"
      using pos by (simp add: store_bit_def)
    have ih: "bits_inner i b (j + 1) ?bits' =
        Some (take (i * 8 + (j + 1)) ?bits' @ map (\<lambda>k. bit b (7 - k)) [j + 1..<8]
              @ drop (i * 8 + 8) ?bits')"
      using "1.IH" [OF True st] "1.prems" True by simp
    have t: "take (i * 8 + (j + 1)) ?bits' = take (i * 8 + j) bits @ [bit b (7 - j)]"
      using pos by (simp add: take_Suc_conv_app_nth test_bit_eq del: drop_bit_word_numeral)
    have d: "drop (i * 8 + 8) ?bits' = drop (i * 8 + 8) bits"
      using True by simp
    have u: "[j..<8] = j # [j + 1..<8]"
      using True by (simp add: upt_conv_Cons)
    have "bits_inner i b j bits = bits_inner i b (j + 1) ?bits'"
      using True st by (simp add: bits_inner.simps [of i b j])
    also have "\<dots> = Some ((take (i * 8 + j) bits @ [bit b (7 - j)])
              @ map (\<lambda>k. bit b (7 - k)) [j + 1..<8] @ drop (i * 8 + 8) bits)"
      unfolding ih t d ..
    finally show ?thesis by (simp add: u)
  qed
qed

lemma bits_outer_eq:
  "(i + length data) * 8 \<le> length bits \<Longrightarrow>
   bits_outer i data bits =
     Some (take (i * 8) bits @ concat (map byte_bits data) @ drop ((i + length data) * 8) bits)"
proof (induction data arbitrary: i bits)
  case Nil
  then show ?case by simp
next
  case (Cons b data)
  let ?bits' = "take (i * 8) bits @ byte_bits b @ drop (i * 8 + 8) bits"
  have len: "i * 8 + 8 \<le> length bits" using Cons.prems by simp
  have inner: "bits_inner i b 0 bits = Some ?bits'"
    using bits_inner_eq [OF len, of 0 b] by (simp add: byte_bits_def)
  have lb: "length (byte_bits b) = 8" by (simp add: byte_bits_def)
  have l': "length ?bits' = length bits" using len by (simp add: lb)
  have ih: "bits_outer (i + 1) data ?bits' =
     Some (take ((i + 1) * 8) ?bits' @ concat (map byte_bits data)
           @ drop ((i + 1 + length data) * 8) ?bits')"
    using Cons.prems l' by (intro Cons.IH) simp
  have t: "take ((i + 1) * 8) ?bits' = take (i * 8) bits @ byte_bits b"
    using len by (simp add: lb)
  have d: "drop ((i + 1 + length data) * 8) ?bits' = drop ((i + length (b # data)) * 8) bits"
    using len by (simp add: lb algebra_simps)
  have "bits_outer i (b # data) bits = bits_outer (i + 1) data ?bits'"
    using inner by simp
  also have "\<dots> = Some ((take (i * 8) bits @ byte_bits b) @ concat (map byte_bits data)
           @ drop ((i + length (b # data)) * 8) bits)"
    unfolding ih t d ..
  finally show ?case by simp
qed

lemma toBits_eq: "toBits B = Some (concat (map byte_bits B))"
proof -
  have "bits_outer 0 B (replicate (length B * 8) False) =
        Some (concat (map byte_bits B))"
    using bits_outer_eq [of 0 B "replicate (length B * 8) False"] by simp
  moreover have "nat (int (length B) * 8) = length B * 8"
    by (simp add: nat_mult_distrib)
  ultimately show ?thesis
    by (simp add: toBits_def decode_bits_def)
qed

lemma length_byte_bits: "length (byte_bits b) = 8"
  by (simp add: byte_bits_def)

lemma length_concat_byte_bits: "length (concat (map byte_bits B)) = 8 * length B"
  by (induction B) (simp_all add: length_byte_bits)

lemma nth_concat_byte_bits:
  "i < length B \<Longrightarrow> j < 8 \<Longrightarrow> concat (map byte_bits B) ! (i * 8 + j) = bit (B ! i) (7 - j)"
proof (induction B arbitrary: i)
  case Nil
  then show ?case by simp
next
  case (Cons b B)
  show ?case
  proof (cases i)
    case 0
    with Cons.prems show ?thesis
      by (simp add: nth_append length_byte_bits) (simp add: byte_bits_def)
  next
    case (Suc k)
    with Cons.prems have "k < length B" by simp
    then have "concat (map byte_bits B) ! (k * 8 + j) = bit (B ! k) (7 - j)"
      using Cons.prems(2) by (rule Cons.IH)
    with Suc show ?thesis
      by (simp add: nth_append length_byte_bits)
  qed
qed

text \<open>
  C4. For every byte sequence \<open>B\<close>, \<^verbatim>\<open>convertBytesTo16BitInts\<close> returns
  \<open>ceil(len(B)/2)\<close> values; value \<open>i\<close> of a full pair is \<open>B[2i]<<8 | B[2i+1]\<close>; when the
  length is odd the last value is the final byte alone (so its high byte is zero); every
  value fits in 16 bits; \<open>[0x01,0x02,0x03]\<close> gives \<open>[258, 3]\<close> and the empty sequence
  gives the empty sequence.
\<close>

theorem convertBytesTo16BitInts_words:
  "length (convertBytesTo16BitInts B) = (length B + 1) div 2 \<and>
   (\<forall>i. 2 * i + 1 < length B \<longrightarrow>
      convertBytesTo16BitInts B ! i = push_bit 8 (uint (B ! (2 * i))) OR uint (B ! (2 * i + 1))) \<and>
   (odd (length B) \<longrightarrow>
      convertBytesTo16BitInts B ! (length B div 2) = uint (B ! (length B - 1))) \<and>
   (\<forall>v \<in> set (convertBytesTo16BitInts B). 0 \<le> v \<and> v < 65536) \<and>
   convertBytesTo16BitInts [1, 2, 3] = [258, 3] \<and>
   convertBytesTo16BitInts [] = []"
proof -
  have "length (pairs16 B) = (length B + 1) div 2"
    by (rule length_pairs16)
  moreover have "\<forall>i. 2 * i + 1 < length B \<longrightarrow>
      pairs16 B ! i = push_bit 8 (uint (B ! (2 * i))) OR uint (B ! (2 * i + 1))"
    using pairs16_nth_pair by blast
  moreover have "odd (length B) \<longrightarrow> pairs16 B ! (length B div 2) = uint (B ! (length B - 1))"
    using pairs16_nth_last by blast
  moreover have "\<forall>v \<in> set (pairs16 B). 0 \<le> v \<and> v < 65536"
    using pairs16_range by blast
  moreover have "pairs16 [1, 2, 3] = [258, 3]" by simp
  moreover have "pairs16 [] = []" by simp
  ultimately show ?thesis
    unfolding convert_eq_pairs16 by blast
qed

theorem convertBytesTo16BitInts_words_witness:
  "2 * 0 + 1 < length [1, 2, 3 :: byte] \<and> odd (length [1, 2, 3 :: byte]) \<and>
   length (convertBytesTo16BitInts [1, 2, 3]) = 2 \<and>
   convertBytesTo16BitInts [1, 2, 3] ! 0 = 258 \<and>
   convertBytesTo16BitInts [1, 2, 3] ! 1 = 3 \<and>
   258 \<in> set (convertBytesTo16BitInts [1, 2, 3])"
  using convertBytesTo16BitInts_words [of "[1, 2, 3]"] by simp

text \<open>
  C5. For every byte sequence \<open>B\<close> the bit decoding succeeds and yields \<open>8 * len(B)\<close>
  booleans; boolean \<open>j\<close> of byte \<open>i\<close> is bit \<open>7 - j\<close> of that byte, so each byte is emitted
  from its most significant to its least significant bit; and regrouping the booleans
  eight at a time, most significant first, gives \<open>B\<close> back.
\<close>

theorem toBits_regroup:
  "\<exists>bits. toBits B = Some bits \<and> length bits = 8 * length B \<and>
     (\<forall>i < length B. \<forall>j < 8. bits ! (i * 8 + j) = bit (B ! i) (7 - j)) \<and>
     regroup8 bits = B"
proof -
  let ?bits = "concat (map byte_bits B)"
  have "toBits B = Some ?bits" by (rule toBits_eq)
  moreover have "length ?bits = 8 * length B" by (rule length_concat_byte_bits)
  moreover have "\<forall>i < length B. \<forall>j < 8. ?bits ! (i * 8 + j) = bit (B ! i) (7 - j)"
    using nth_concat_byte_bits by blast
  moreover have "regroup8 ?bits = B" by (rule regroup8_concat)
  ultimately show ?thesis by blast
qed

theorem toBits_regroup_witness:
  "(0::nat) < length [176 :: byte] \<and> (2::nat) < 8 \<and>
   (\<exists>bits. toBits [176] = Some bits \<and> length bits = 8 \<and> bits ! 2 = True \<and>
      regroup8 bits = [176])"
  using toBits_regroup [of "[176]"] by auto

section \<open>Properties of the session manager\<close>

lemma length_copy_into: "length (copy_into buffer data) = length buffer"
  by (simp add: copy_into_def)

lemma copy_into_full:
  "length buffer \<le> length data \<Longrightarrow> copy_into buffer data = take (length buffer) data"
  by (simp add: copy_into_def)

lemma readVArea_nil_client:
  "client p = None \<Longrightarrow> \<not> mu p \<Longrightarrow>
   readVArea env startByte sz (p, w) = Some (Err NotConnectedError, p, w)"
  by (simp add: readVArea.simps Lock_def Unlock_def)

lemma readVArea_db_ok:
  assumes "client p = Some h" "\<not> mu p" "0 \<le> sz"
    and "AGReadDB env (trace w) h 1 startByte sz = (None, data)"
  shows "readVArea env startByte sz (p, w) =
     Some (Ok (copy_into (replicate (nat sz) 0) data), p, emit (EvReadDB h 1 startByte sz) w)"
  using assms by (simp add: readVArea.simps Lock_def Unlock_def)

lemma readVArea_db_failed:
  assumes "client p = Some h" "\<not> mu p" "0 \<le> sz"
    and "AGReadDB env (trace w) h 1 startByte sz = (Some e, data)"
    and "AGReadMB env (trace (emit (EvReadDB h 1 startByte sz) w)) h startByte sz = (r2, data2)"
  shows "readVArea env startByte sz (p, w) =
     Some (case r2 of
             None \<Rightarrow> Ok (copy_into (copy_into (replicate (nat sz) 0) data) data2)
           | Some e2 \<Rightarrow> Err (ReadError e e2),
           p, emit (EvReadMB h startByte sz) (emit (EvReadDB h 1 startByte sz) w))"
  using assms by (simp add: readVArea.simps Lock_def Unlock_def split: option.splits)

lemma readVArea_length:
  "readVArea env startByte sz s = Some (Ok data, s') \<Longrightarrow> length data = nat sz"
  by (cases s)
    (auto simp: readVArea.simps Lock_def Let_def length_copy_into
      split: option.splits if_splits prod.splits)

lemma readVArea_no_panic:
  "0 \<le> sz \<Longrightarrow> readVArea env startByte sz s \<noteq> Some (Panic, s')"
  by (cases s)
    (auto simp: readVArea.simps Lock_def Let_def split: option.splits if_splits prod.splits)

lemma readVArea_returns:
  "\<not> mu p \<Longrightarrow> \<exists>r w'. readVArea env startByte sz (p, w) = Some (r, p, w')"
  by (auto simp: readVArea.simps Lock_def Unlock_def Let_def
      split: option.splits if_splits prod.splits)

lemma readOnce_eq: "readOnce env a n s = readVArea env a (max 1 (min 80 n)) s"
proof -
  have c: "(if (if n \<le> 0 then 1 else n) > 80 then 80 else (if n \<le> 0 then 1 else n)) =
           max 1 (min 80 n)"
    by auto
  have e: "\<And>x. (case x of None \<Rightarrow> None | Some (Err e, s') \<Rightarrow> Some (Err e, s')
                  | Some (r, s') \<Rightarrow> Some (r, s')) = x"
    by (auto split: option.splits outcome.splits)
  show ?thesis unfolding readOnce_def Let_def c e ..
qed

lemma connectPLC_connected_blocks:
  "client p \<noteq> None \<Longrightarrow> connectPLC env ip (p, w) = None"
  by (auto simp: connectPLC.simps disconnectPLC.simps Lock_def)

lemma connectPLC_first:
  "connectPLC plc_up ''192.168.1.11'' (NewPLCBinaryViewer world0) = Some (None, connected0)"
  by (simp add: connectPLC.simps NewPLCBinaryViewer_def world0_def connected0_def handler0_def
      plc_up_def Lock_def Unlock_def emit_def defaultRack_def defaultSlot_def Let_def)

text \<open>
  C1 (the code does not do this). Starting from a fresh viewer, a first
  \<^verbatim>\<open>connectPLC\<close> succeeds and leaves a client; a second \<^verbatim>\<open>connectPLC\<close> in that
  state never returns: it holds the mutex when it calls \<^verbatim>\<open>disconnectPLC\<close>, whose own
  \<^verbatim>\<open>Lock\<close> then waits for ever. The old handle is not closed and no new one is made.
\<close>

theorem connectPLC_twice_blocks:
  "connectPLC plc_up ''192.168.1.11'' (NewPLCBinaryViewer world0) = Some (None, connected0) \<and>
   client (fst connected0) = Some handler0 \<and>
   connectPLC plc_up ''192.168.1.11'' connected0 = None"
proof -
  have "client (fst connected0) \<noteq> None" by (simp add: connected0_def)
  then have "connectPLC plc_up ''192.168.1.11'' (fst connected0, snd connected0) = None"
    by (rule connectPLC_connected_blocks)
  then show ?thesis
    using connectPLC_first by (simp add: connected0_def)
qed

text \<open>
  C2. With no client and the mutex free, \<^verbatim>\<open>readVArea\<close> returns the not-connected
  error for every start address and size, and the viewer and the world are unchanged: the
  trace gains no event, so neither transport read was called.
\<close>

theorem readVArea_no_client:
  "client p = None \<Longrightarrow> \<not> mu p \<Longrightarrow>
   readVArea env startByte sz (p, w) = Some (Err NotConnectedError, p, w)"
  by (rule readVArea_nil_client)

theorem readVArea_no_client_witness:
  "client (fst (NewPLCBinaryViewer world0)) = None \<and>
   \<not> mu (fst (NewPLCBinaryViewer world0)) \<and>
   readVArea plc_up 100 1 (NewPLCBinaryViewer world0) =
     Some (Err NotConnectedError, NewPLCBinaryViewer world0)"
proof -
  have c: "client (fst (NewPLCBinaryViewer world0)) = None"
    and m: "\<not> mu (fst (NewPLCBinaryViewer world0))"
    by (simp_all add: NewPLCBinaryViewer_def)
  show ?thesis
    using c m readVArea_no_client [OF c m, of plc_up 100 1 "snd (NewPLCBinaryViewer world0)"]
    by simp
qed

text \<open>
  C3. With a client, the mutex free and a size that is not negative: if the data-block
  read reports no error, \<^verbatim>\<open>readVArea\<close> returns the buffer as that read filled it and
  the trace gains the data-block read only; if it reports an error and the flat-memory
  read (same offset and size) reports none, the buffer as the flat-memory read left it
  is returned and no error; if both report errors, the result is the error built from
  both messages. So an error is returned exactly when both reads fail. A read that
  supplies at least the requested number of bytes determines the whole buffer.
\<close>

theorem readVArea_two_tier:
  assumes "client p = Some h" and "\<not> mu p" and "0 \<le> sz"
  shows
    "(\<forall>data. AGReadDB env (trace w) h 1 startByte sz = (None, data) \<longrightarrow>
        readVArea env startByte sz (p, w) =
          Some (Ok (copy_into (replicate (nat sz) 0) data), p,
                emit (EvReadDB h 1 startByte sz) w) \<and>
        (nat sz \<le> length data \<longrightarrow>
           copy_into (replicate (nat sz) 0) data = take (nat sz) data)) \<and>
     (\<forall>e data data2.
        AGReadDB env (trace w) h 1 startByte sz = (Some e, data) \<and>
        AGReadMB env (trace (emit (EvReadDB h 1 startByte sz) w)) h startByte sz = (None, data2)
        \<longrightarrow>
        readVArea env startByte sz (p, w) =
          Some (Ok (copy_into (copy_into (replicate (nat sz) 0) data) data2), p,
                emit (EvReadMB h startByte sz) (emit (EvReadDB h 1 startByte sz) w)) \<and>
        (nat sz \<le> length data2 \<longrightarrow>
           copy_into (copy_into (replicate (nat sz) 0) data) data2 = take (nat sz) data2)) \<and>
     (\<forall>e data e2 data2.
        AGReadDB env (trace w) h 1 startByte sz = (Some e, data) \<and>
        AGReadMB env (trace (emit (EvReadDB h 1 startByte sz) w)) h startByte sz =
          (Some e2, data2)
        \<longrightarrow>
        readVArea env startByte sz (p, w) =
          Some (Err (ReadError e e2), p,
                emit (EvReadMB h startByte sz) (emit (EvReadDB h 1 startByte sz) w))) \<and>
     ((\<exists>err s'. readVArea env startByte sz (p, w) = Some (Err err, s')) \<longleftrightarrow>
        fst (AGReadDB env (trace w) h 1 startByte sz) \<noteq> None \<and>
        fst (AGReadMB env (trace (emit (EvReadDB h 1 startByte sz) w)) h startByte sz) \<noteq> None)"
proof -
  let ?db = "AGReadDB env (trace w) h 1 startByte sz"
  let ?w1 = "emit (EvReadDB h 1 startByte sz) w"
  let ?mb = "AGReadMB env (trace ?w1) h startByte sz"
  let ?zeros = "replicate (nat sz) (0 :: byte)"
  have full: "nat sz \<le> length d \<Longrightarrow> copy_into ?zeros d = take (nat sz) d" for d
    using copy_into_full [of ?zeros d] by simp
  have full2: "nat sz \<le> length d2 \<Longrightarrow>
      copy_into (copy_into ?zeros d) d2 = take (nat sz) d2" for d d2
    using copy_into_full [of "copy_into ?zeros d" d2] by (simp add: length_copy_into)
  have a: "readVArea env startByte sz (p, w) = Some (Ok (copy_into ?zeros data), p, ?w1)"
    if "?db = (None, data)" for data
    using assms that by (rule readVArea_db_ok)
  have b: "readVArea env startByte sz (p, w) =
      Some (Ok (copy_into (copy_into ?zeros data) data2), p, emit (EvReadMB h startByte sz) ?w1)"
    if "?db = (Some e, data)" "?mb = (None, data2)" for e data data2
    using readVArea_db_failed [OF assms that] by simp
  have c: "readVArea env startByte sz (p, w) =
      Some (Err (ReadError e e2), p, emit (EvReadMB h startByte sz) ?w1)"
    if "?db = (Some e, data)" "?mb = (Some e2, data2)" for e data e2 data2
    using readVArea_db_failed [OF assms that] by simp
  have d: "(\<exists>err s'. readVArea env startByte sz (p, w) = Some (Err err, s')) \<longleftrightarrow>
      fst ?db \<noteq> None \<and> fst ?mb \<noteq> None"
  proof (cases ?db)
    case (Pair r data)
    show ?thesis
    proof (cases r)
      case None
      with Pair a [of data] show ?thesis by simp
    next
      case (Some e)
      show ?thesis
      proof (cases ?mb)
        case mb: (Pair r2 data2)
        show ?thesis
        proof (cases r2)
          case None
          with Pair Some mb b [of e data data2] show ?thesis by simp
        next
          case e2: (Some e2)
          with Pair Some mb c [of e data e2 data2] show ?thesis by simp
        qed
      qed
    qed
  qed
  show ?thesis
    using a b c d full full2 by blast
qed

theorem readVArea_two_tier_witness:
  "client (fst connected0) = Some handler0 \<and> \<not> mu (fst connected0) \<and> (0::int) \<le> 2 \<and>
   AGReadDB plc_flat (trace (snd connected0)) handler0 1 100 2 = (Some ''db'', []) \<and>
   AGReadMB plc_flat (trace (emit (EvReadDB handler0 1 100 2) (snd connected0))) handler0 100 2 =
     (None, [176, 176]) \<and>
   readVArea plc_flat 100 2 connected0 =
     Some (Ok [176, 176], fst connected0,
           emit (EvReadMB handler0 100 2) (emit (EvReadDB handler0 1 100 2) (snd connected0)))"
proof -
  have c: "client (fst connected0) = Some handler0" and m: "\<not> mu (fst connected0)"
    by (simp_all add: connected0_def)
  have z: "(0::int) \<le> 2" by simp
  have db: "AGReadDB plc_flat (trace (snd connected0)) handler0 1 100 2 = (Some ''db'', [])"
    by (simp add: plc_flat_def)
  have mb: "AGReadMB plc_flat (trace (emit (EvReadDB handler0 1 100 2) (snd connected0)))
      handler0 100 2 = (None, [176, 176])"
    by (simp add: plc_flat_def numeral_2_eq_2)
  have cp: "copy_into (copy_into (replicate (nat 2) 0) []) [176, 176] = [176, 176 :: byte]"
    by (simp add: copy_into_def numeral_2_eq_2)
  from readVArea_two_tier [OF c m z, of plc_flat "snd connected0" 100] db mb
  have "readVArea plc_flat 100 2 (fst connected0, snd connected0) =
     Some (Ok (copy_into (copy_into (replicate (nat 2) 0) []) [176, 176]), fst connected0,
           emit (EvReadMB handler0 100 2) (emit (EvReadDB handler0 1 100 2) (snd connected0)))"
    by blast
  then show ?thesis using c m db mb cp by simp
qed

text \<open>
  C6. \<^verbatim>\<open>readOnce\<close> is \<^verbatim>\<open>readVArea\<close> with the length clamped into 1..80: in every
  state and for every start address, length 0 gives what length 1 gives and length 1000
  gives what length 80 gives (result, state and trace).
\<close>

theorem readOnce_clamps:
  "readOnce env x n s = readVArea env x (max 1 (min 80 n)) s \<and>
   readOnce env x 0 s = readOnce env x 1 s \<and>
   readOnce env x 1000 s = readOnce env x 80 s"
  by (simp add: readOnce_eq)

text \<open>
  C10. When \<^verbatim>\<open>readOnce\<close> returns bytes, their number is the requested length clamped
  into 1..80.
\<close>

theorem readOnce_length:
  "readOnce env x n s = Some (Ok data, s') \<Longrightarrow> length data = nat (max 1 (min 80 n))"
  unfolding readOnce_eq by (rule readVArea_length)

theorem readOnce_length_witness:
  "readOnce plc_up 100 1000 connected0 =
     Some (Ok (replicate 80 176), fst connected0, emit (EvReadDB handler0 1 100 80) (snd connected0)) \<and>
   length (replicate 80 (176 :: byte)) = nat (max 1 (min 80 1000))"
proof -
  have c: "client (fst connected0) = Some handler0" and m: "\<not> mu (fst connected0)"
    by (simp_all add: connected0_def)
  have db: "AGReadDB plc_up (trace (snd connected0)) handler0 1 100 80 =
      (None, replicate (nat 80) 176)"
    by (simp add: plc_up_def)
  have "readVArea plc_up 100 80 (fst connected0, snd connected0) =
      Some (Ok (copy_into (replicate (nat 80) 0) (replicate (nat 80) 176)), fst connected0,
            emit (EvReadDB handler0 1 100 80) (snd connected0))"
    using c m _ db by (rule readVArea_db_ok) simp
  then have r: "readOnce plc_up 100 1000 connected0 =
      Some (Ok (replicate 80 176), fst connected0,
            emit (EvReadDB handler0 1 100 80) (snd connected0))"
    by (simp add: readOnce_eq copy_into_def)
  from readOnce_length [OF r] r show ?thesis by simp
qed

section \<open>Properties of the poller\<close>

lemma poller_inv_same: "same_poller s s' \<Longrightarrow> poller_inv s \<Longrightarrow> poller_inv s'"
  by (simp add: same_poller_def poller_inv_def Let_def)

lemma disconnectPLC_same: "disconnectPLC s = Some s' \<Longrightarrow> same_poller s s'"
  by (cases s) (auto simp: disconnectPLC.simps same_poller_def Lock_def Unlock_def Let_def emit_def
      split: option.splits if_splits)

lemma connectPLC_same: "connectPLC env ip s = Some (r, s') \<Longrightarrow> same_poller s s'"
  by (cases s) (auto simp: connectPLC.simps disconnectPLC.simps same_poller_def Lock_def Unlock_def Let_def emit_def
      split: option.splits if_splits)

lemma readVArea_same: "readVArea env a n s = Some (r, s') \<Longrightarrow> same_poller s s'"
  by (cases s) (auto simp: readVArea.simps same_poller_def Lock_def Unlock_def Let_def emit_def
      split: option.splits if_splits prod.splits)

lemma readOnce_same: "readOnce env a n s = Some (r, s') \<Longrightarrow> same_poller s s'"
  by (simp add: readOnce_eq readVArea_same)

lemma decode_bits_ok:
  "length data = nat n \<Longrightarrow> 0 \<le> n \<Longrightarrow> decode_bits n data = Some (concat (map byte_bits data))"
  using toBits_eq [of data] by (simp add: toBits_def)

lemma emit_poller [simp]:
  "made (emit e w) = made w" "closed (emit e w) = closed w" "loops (emit e w) = loops w"
  by (simp_all add: emit_def)

lemma tick_unfold:
  "tick env i (p, w) =
     (case readVArea env (l_start (loops w ! i)) (max 1 (min 4 (l_len (loops w ! i)))) (p, w) of
            None \<Rightarrow> None
          | Some (Err e, p', w') \<Rightarrow> Some (p', emit (EvLog e) w')
          | Some (Panic, p', w') \<Rightarrow> Some (p', set_status i Crashed w')
          | Some (Ok data, p', w') \<Rightarrow>
              (case decode_bits (max 1 (min 4 (l_len (loops w ! i)))) data of
                 None \<Rightarrow> Some (p', set_status i Crashed w')
               | Some bits \<Rightarrow>
                   Some (p', if l_sink (loops w ! i) then emit (EvSink bits) w' else w')))"
  proof -
  have c: "(if (if n \<le> 0 then 1 else n) > 4 then 4 else (if n \<le> 0 then 1 else n)) =
           max 1 (min 4 n)" for n :: int
    by auto
  show ?thesis unfolding tick.simps Let_def c ..
qed

lemma startMonitoring_unfold:
  "startMonitoring a n f (p, w) =
     (if mu p then None
      else if running p then Some (p, w)
      else Some (p\<lparr>running := True, stopChan := made w\<rparr>,
                 w\<lparr>made := made w + 1,
                   loops := loops w @ [\<lparr>l_stop = made w, l_start = a, l_len = n,
                                           l_sink = f, l_status = Live\<rparr>]\<rparr>))"
  by (simp add: startMonitoring.simps Lock_def Unlock_def Let_def)

lemma stopMonitoring_unfold:
  "stopMonitoring (p, w) =
     (if mu p then None
      else if running p then
        (if stopChan p \<in> closed w then Some (Panic, p\<lparr>mu := True\<rparr>, w)
         else Some (Ok (), p\<lparr>running := False\<rparr>, w\<lparr>closed := insert (stopChan p) (closed w)\<rparr>))
      else Some (Ok (), p, w))"
  by (simp add: stopMonitoring.simps Lock_def Unlock_def Let_def)

lemma tick_blocked:
  "readVArea env (l_start (loops w ! i)) (max 1 (min 4 (l_len (loops w ! i)))) (p, w) = None \<Longrightarrow>
   tick env i (p, w) = None"
  by (simp add: tick_unfold)

lemma tick_Err:
  "readVArea env (l_start (loops w ! i)) (max 1 (min 4 (l_len (loops w ! i)))) (p, w) = Some (Err e, p', w') \<Longrightarrow>
   tick env i (p, w) = Some (p', emit (EvLog e) w')"
  by (simp add: tick_unfold)

lemma tick_Ok:
  assumes "readVArea env (l_start (loops w ! i)) (max 1 (min 4 (l_len (loops w ! i)))) (p, w) = Some (Ok data, p', w')"
  shows "tick env i (p, w) =
     Some (p', if l_sink (loops w ! i) then emit (EvSink (concat (map byte_bits data))) w' else w')"
proof -
  have "length data = nat (max 1 (min 4 (l_len (loops w ! i))))"
    using assms by (rule readVArea_length)
  then have "decode_bits (max 1 (min 4 (l_len (loops w ! i)))) data = Some (concat (map byte_bits data))"
    by (simp add: decode_bits_ok)
  then show ?thesis using assms by (simp add: tick_unfold)
qed

lemma tick_same: 
  assumes "tick env i s = Some s'" shows "same_poller s s'"
proof -
  obtain p w where s: "s = (p, w)" by (cases s)
  let ?n = "max 1 (min 4 (l_len (loops w ! i)))"
  let ?a = "l_start (loops w ! i)"
  from assms s have "readVArea env ?a ?n (p, w) \<noteq> None"
    using tick_blocked by fastforce
  then obtain r p1 w1 where rd: "readVArea env ?a ?n (p, w) = Some (r, p1, w1)"
    by (cases "readVArea env ?a ?n (p, w)") auto
  have sp: "same_poller (p, w) (p1, w1)" using rd by (rule readVArea_same)
  show ?thesis
  proof (cases r)
    case (Ok data)
    with rd have "tick env i (p, w) =
       Some (p1, if l_sink (loops w ! i) then emit (EvSink (concat (map byte_bits data))) w1 else w1)"
      by (simp only: tick_Ok)
    with assms s have "s' = (p1, if l_sink (loops w ! i) then emit (EvSink (concat (map byte_bits data))) w1 else w1)"
      by simp
    with sp s show ?thesis by (simp add: same_poller_def)
  next
    case (Err e)
    with rd have "tick env i (p, w) = Some (p1, emit (EvLog e) w1)"
      by (simp only: tick_Err)
    with assms s have "s' = (p1, emit (EvLog e) w1)" by simp
    with sp s show ?thesis by (simp add: same_poller_def)
  next
    case Panic
    have "0 \<le> ?n" by simp
    with rd Panic readVArea_no_panic show ?thesis by blast
  qed
qed

lemma startMonitoring_inv: 
  assumes "poller_inv s" "startMonitoring a n f s = Some s'" shows "poller_inv s'"
proof -
  obtain p w where s: "s = (p, w)" by (cases s)
  show ?thesis
  proof (cases "running p")
    case True
    with assms s show ?thesis by (auto simp: startMonitoring_unfold split: if_splits)
  next
    case False
    with assms s have old: "\<forall>g \<in> set (loops w). l_stop g \<in> closed w \<and> l_stop g < made w \<and> l_status g \<noteq> Crashed"
      by (auto simp: poller_inv_def Let_def)
    from assms s False show ?thesis
      using old by (fastforce simp: startMonitoring_unfold poller_inv_def Let_def less_Suc_eq split: if_splits)
  qed
qed

lemma stopMonitoring_inv:
  assumes "poller_inv s" "stopMonitoring s = Some (Ok u, s')" shows "poller_inv s'"
proof -
  obtain p w where s: "s = (p, w)" by (cases s)
  have nm: "\<not> mu p" using assms(1) s by (simp add: poller_inv_def)
  show ?thesis
  proof (cases "running p")
    case False
    with assms(2) s nm have "s' = s" by (simp add: stopMonitoring_unfold)
    with assms(1) show ?thesis by simp
  next
    case True
    with assms(1) s have nc: "stopChan p \<notin> closed w" by (simp add: poller_inv_def)
    with assms(2) s nm True
    have s': "s' = (p\<lparr>running := False\<rparr>, w\<lparr>closed := insert (stopChan p) (closed w)\<rparr>)"
      by (simp add: stopMonitoring_unfold)
    have a: "\<forall>c \<in> insert (stopChan p) (closed w). c < made w"
      using assms(1) s by (simp add: poller_inv_def)
    have b: "\<forall>g \<in> set (loops w). l_stop g \<in> insert (stopChan p) (closed w)"
      using assms(1) s by (auto simp: poller_inv_def)
    show ?thesis
      using assms(1) s a b unfolding s' by (simp add: poller_inv_def)
  qed
qed

lemma poller_inv_iff:
  "poller_inv (p, w) \<longleftrightarrow>
      \<not> mu p \<and> stopChan p < made w \<and>
      (\<forall>c \<in> closed w. c < made w) \<and>
      (\<forall>g \<in> set (loops w). l_stop g < made w \<and> l_status g \<noteq> Crashed) \<and>
      distinct (map l_stop (loops w)) \<and>
      (running p \<longrightarrow> stopChan p \<notin> closed w \<and>
         (\<exists>g \<in> set (loops w). l_stop g = stopChan p \<and> l_status g = Live)) \<and>
      (\<forall>g \<in> set (loops w). l_stop g \<notin> closed w \<longrightarrow> running p \<and> l_stop g = stopChan p)"
  by (simp add: poller_inv_def)

lemma set_status_Returned_inv:
  assumes "poller_inv (p, w)" "i < length (loops w)" "l_stop (loops w ! i) \<in> closed w"
  shows "poller_inv (p, set_status i Returned w)"
proof -
  let ?g = "(loops w ! i)\<lparr>l_status := Returned\<rparr>"
  let ?ls = "(loops w)[i := ?g]"
  from assms(1) have i1: "\<not> mu p" and i2: "stopChan p < made w"
    and i3: "\<forall>c \<in> closed w. c < made w"
    and i4: "\<forall>g \<in> set (loops w). l_stop g < made w \<and> l_status g \<noteq> Crashed"
    and i5: "distinct (map l_stop (loops w))"
    and i6: "running p \<longrightarrow> stopChan p \<notin> closed w \<and>
         (\<exists>g \<in> set (loops w). l_stop g = stopChan p \<and> l_status g = Live)"
    and i7: "\<forall>g \<in> set (loops w). l_stop g \<notin> closed w \<longrightarrow> running p \<and> l_stop g = stopChan p"
    unfolding poller_inv_iff by blast+
  have m: "map l_stop ?ls = map l_stop (loops w)"
    using assms(2) by (simp add: map_update list_update_same_conv)
  have sub: "set ?ls \<subseteq> insert ?g (set (loops w))" by (rule set_update_subset_insert)
  have gi: "loops w ! i \<in> set (loops w)" using assms(2) by simp
  have a: "\<forall>g \<in> set ?ls. l_stop g < made w \<and> l_status g \<noteq> Crashed"
  proof
    fix g assume "g \<in> set ?ls"
    with sub have "g = ?g \<or> g \<in> set (loops w)" by blast
    then show "l_stop g < made w \<and> l_status g \<noteq> Crashed"
      using i4 gi by auto
  qed
  have b: "\<forall>g \<in> set ?ls. l_stop g \<notin> closed w \<longrightarrow> running p \<and> l_stop g = stopChan p"
  proof
    fix g assume "g \<in> set ?ls"
    with sub have "g = ?g \<or> g \<in> set (loops w)" by blast
    then show "l_stop g \<notin> closed w \<longrightarrow> running p \<and> l_stop g = stopChan p"
      using i7 assms(3) by auto
  qed
  have c: "running p \<longrightarrow> stopChan p \<notin> closed w \<and>
      (\<exists>g \<in> set ?ls. l_stop g = stopChan p \<and> l_status g = Live)"
  proof
    assume r: "running p"
    with i6 obtain g where g: "g \<in> set (loops w)" "l_stop g = stopChan p" "l_status g = Live"
      and nc: "stopChan p \<notin> closed w"
      by blast
    from g(1) obtain k where k: "k < length (loops w)" "loops w ! k = g"
      by (auto simp: in_set_conv_nth)
    have "k \<noteq> i" using k g(2) nc assms(3) by auto
    then have "?ls ! k = g" using k by simp
    moreover have "k < length ?ls" using k by simp
    ultimately have "g \<in> set ?ls" by (metis nth_mem)
    with g nc show "stopChan p \<notin> closed w \<and>
       (\<exists>g \<in> set ?ls. l_stop g = stopChan p \<and> l_status g = Live)" by blast
  qed
  have "poller_inv (p, w\<lparr>loops := ?ls\<rparr>)"
    unfolding poller_inv_iff using i1 i2 i3 i5 a b c m by simp
  then show ?thesis by (simp add: set_status_def)
qed

lemma loop_step_inv:
  assumes "poller_inv s" "loop_step env i c s = Some s'" shows "poller_inv s'"
proof -
  obtain p w where s: "s = (p, w)" by (cases s)
  show ?thesis
  proof (cases c)
    case RecvStop
    with assms s show ?thesis
      by (auto simp: loop_step.simps set_status_Returned_inv split: if_splits)
  next
    case RecvTick
    with assms s have "tick env i s = Some s'"
      by (auto simp: loop_step.simps split: if_splits)
    then show ?thesis using assms(1) tick_same poller_inv_same by blast
  qed
qed

lemma step_inv:
  assumes "poller_inv s" "step env a s = Some s'" shows "poller_inv s'"
proof (cases a)
  case (DoConnect ip)
  with assms obtain r where "connectPLC env ip s = Some (r, s')"
    by (cases "connectPLC env ip s") auto
  then show ?thesis using assms(1) connectPLC_same poller_inv_same by blast
next
  case DoDisconnect
  with assms have "disconnectPLC s = Some s'" by simp
  then show ?thesis using assms(1) disconnectPLC_same poller_inv_same by blast
next
  case (DoReadOnce x n)
  with assms obtain r where "readOnce env x n s = Some (r, s')"
    by (cases "readOnce env x n s") (auto split: outcome.splits)
  then show ?thesis using assms(1) readOnce_same poller_inv_same by blast
next
  case (DoStart x n f)
  with assms have "startMonitoring x n f s = Some s'" by simp
  then show ?thesis using assms(1) startMonitoring_inv by blast
next
  case DoStop
  with assms obtain u where "stopMonitoring s = Some (Ok u, s')"
    by (cases "stopMonitoring s") (auto split: outcome.splits)
  then show ?thesis using assms(1) stopMonitoring_inv by blast
next
  case (DoLoop i c)
  with assms have "loop_step env i c s = Some s'" by simp
  then show ?thesis using assms(1) loop_step_inv by blast
qed

lemma run_inv: "poller_inv s \<Longrightarrow> run env acts s = Some s' \<Longrightarrow> poller_inv s'"
proof (induction acts arbitrary: s)
  case Nil
  then show ?case by simp
next
  case (Cons a acts)
  from Cons.prems(2) obtain s1 where s1: "step env a s = Some s1" "run env acts s1 = Some s'"
    by (cases "step env a s") simp_all
  from Cons.prems(1) s1(1) have "poller_inv s1" by (rule step_inv)
  then show ?case using s1(2) by (rule Cons.IH)
qed

lemma init_inv: "poller_inv (NewPLCBinaryViewer world0)"
  by (simp add: poller_inv_def NewPLCBinaryViewer_def world0_def)

lemma filter_key_le1:
  "distinct (map f xs) \<Longrightarrow> \<forall>x \<in> set xs. P x \<longrightarrow> f x = c \<Longrightarrow> length (filter P xs) \<le> 1"
proof (induction xs)
  case Nil
  then show ?case by simp
next
  case (Cons x xs)
  show ?case
  proof (cases "P x")
    case False
    with Cons show ?thesis by simp
  next
    case True
    with Cons.prems have fx: "f x = c" by simp
    have "\<not> P y" if y: "y \<in> set xs" for y
    proof
      assume "P y"
      with Cons.prems(2) y have fy: "f y = c" by simp
      from y have "f y \<in> f ` set xs" by (rule imageI)
      with fx fy have "f x \<in> f ` set xs" by simp
      with Cons.prems(1) show False by simp
    qed
    then have "\<forall>y \<in> set xs. \<not> P y" by blast
    then have "filter P xs = []" by (simp add: filter_empty_conv)
    with True show ?thesis by simp
  qed
qed

lemma uncancelled_loops_count:
  assumes "poller_inv (p, w)"
  shows "length (uncancelled_loops w) = (if running p then 1 else 0)"
proof -
  let ?P = "\<lambda>g. l_status g = Live \<and> l_stop g \<notin> closed w"
  from assms have i5: "distinct (map l_stop (loops w))"
    and i6: "running p \<longrightarrow> stopChan p \<notin> closed w \<and>
         (\<exists>g \<in> set (loops w). l_stop g = stopChan p \<and> l_status g = Live)"
    and i7: "\<forall>g \<in> set (loops w). l_stop g \<notin> closed w \<longrightarrow> running p \<and> l_stop g = stopChan p"
    unfolding poller_inv_iff by blast+
  show ?thesis
  proof (cases "running p")
    case False
    with i7 have "\<forall>g \<in> set (loops w). \<not> ?P g" by blast
    then have "filter ?P (loops w) = []" by (simp only: filter_empty_conv)
    with False show ?thesis by (simp add: uncancelled_loops_def)
  next
    case True
    from i7 have k: "\<forall>g \<in> set (loops w). ?P g \<longrightarrow> l_stop g = stopChan p" by blast
    from i5 k have le: "length (filter ?P (loops w)) \<le> 1" by (rule filter_key_le1)
    from i6 True obtain g where "g \<in> set (loops w)" "?P g" by auto
    then have "\<exists>g \<in> set (loops w). ?P g" by blast
    then have "filter ?P (loops w) \<noteq> []" by (simp only: filter_empty_conv) blast
    then have "length (filter ?P (loops w)) \<ge> 1" by (cases "filter ?P (loops w)") simp_all
    with le True show ?thesis by (simp add: uncancelled_loops_def)
  qed
qed

lemma reachable_inv:
  "run env acts (NewPLCBinaryViewer world0) = Some s \<Longrightarrow> poller_inv s"
  using init_inv by (rule run_inv)

lemma run_start0: "run plc_up [DoStart 100 1 True] (NewPLCBinaryViewer world0) = Some polling0"
  by (simp add: NewPLCBinaryViewer_def world0_def startMonitoring_unfold polling0_def loop0_def)

lemma stop_polling0: "stopMonitoring polling0 = Some (Ok (), stopped0)"
  by (simp add: polling0_def stopped0_def stopMonitoring_unfold)

lemma uncancelled_loops_snoc:
  assumes "\<forall>g \<in> set (loops w). l_stop g \<in> closed w" and "c \<notin> closed w"
  shows "uncancelled_loops (w\<lparr>made := m, loops := loops w @ [\<lparr>l_stop = c, l_start = a, l_len = n,
            l_sink = f, l_status = Live\<rparr>]\<rparr>) =
         [\<lparr>l_stop = c, l_start = a, l_len = n, l_sink = f, l_status = Live\<rparr>]"
proof -
  have "filter (\<lambda>g. l_status g = Live \<and> l_stop g \<notin> closed w) (loops w) = []"
    using assms(1) by (simp only: filter_empty_conv) blast
  then show ?thesis using assms(2) by (simp add: uncancelled_loops_def)
qed

lemma filter_split_length:
  "length (filter P xs) =
   length (filter (\<lambda>x. P x \<and> \<not> Q x) xs) + length (filter (\<lambda>x. P x \<and> Q x) xs)"
  by (induction xs) simp_all

lemma live_loops_split:
  "length (live_loops w) = length (uncancelled_loops w) + length (lingering_loops w)"
  unfolding live_loops_def uncancelled_loops_def lingering_loops_def
  by (rule filter_split_length)

lemma filter_update_less:
  "i < length xs \<Longrightarrow> P (xs ! i) \<Longrightarrow> \<not> P y \<Longrightarrow>
   length (filter P (xs[i := y])) + 1 = length (filter P xs)"
proof (induction xs arbitrary: i)
  case Nil
  then show ?case by simp
next
  case (Cons x xs)
  show ?case
  proof (cases i)
    case 0
    with Cons.prems show ?thesis by simp
  next
    case (Suc k)
    with Cons.prems have "length (filter P (xs[k := y])) + 1 = length (filter P xs)"
      by (intro Cons.IH) simp_all
    with Suc show ?thesis by simp
  qed
qed

lemma lingering_returns:
  assumes "i < length (loops w)" and "l_status (loops w ! i) = Live"
    and "l_stop (loops w ! i) \<in> closed w"
  shows "loop_step env i RecvStop (p, w) = Some (p, set_status i Returned w) \<and>
     length (live_loops (set_status i Returned w)) + 1 = length (live_loops w)"
proof -
  have a: "loop_step env i RecvStop (p, w) = Some (p, set_status i Returned w)"
    using assms by (simp add: loop_step.simps)
  have "length (filter (\<lambda>g. l_status g = Live)
          ((loops w)[i := (loops w ! i)\<lparr>l_status := Returned\<rparr>])) + 1 =
        length (filter (\<lambda>g. l_status g = Live) (loops w))"
    using assms(1,2) by (intro filter_update_less) simp_all
  then have "length (live_loops (set_status i Returned w)) + 1 = length (live_loops w)"
    by (simp add: live_loops_def set_status_def)
  with a show ?thesis by simp
qed

lemma run_restart0:
  "run plc_up [DoStart 100 1 True, DoStop, DoStart 100 1 True] (NewPLCBinaryViewer world0) =
   Some restarted0"
  by (simp add: NewPLCBinaryViewer_def world0_def startMonitoring_unfold stopMonitoring_unfold
      restarted0_def loop0_def loop1_def)

text \<open>
  C7 as stated does not hold. \<^verbatim>\<open>stopMonitoring\<close> closes the channel and clears the
  flag without waiting for the goroutine, so start, stop, start on a new viewer leaves
  two goroutines in their loop at once, and the cancelled one can still run a tick (its
  \<^verbatim>\<open>select\<close> may take the ticker case).
\<close>

theorem startMonitoring_two_live_counterexample:
  "run plc_up [DoStart 100 1 True, DoStop, DoStart 100 1 True] (NewPLCBinaryViewer world0) =
     Some restarted0 \<and>
   live_loops (snd restarted0) = [loop0, loop1] \<and>
   length (live_loops (snd restarted0)) = 2 \<and>
   l_stop loop0 \<in> closed (snd restarted0) \<and>
   loop_step plc_up 0 RecvTick restarted0 =
     Some (fst restarted0, emit (EvLog NotConnectedError) (snd restarted0))"
proof -
  have l: "live_loops (snd restarted0) = [loop0, loop1]"
    by (simp add: live_loops_def restarted0_def loop0_def loop1_def)
  have c: "l_stop loop0 \<in> closed (snd restarted0)"
    by (simp add: restarted0_def loop0_def)
  have rd: "readVArea plc_up (l_start (loops (snd restarted0) ! 0))
      (max 1 (min 4 (l_len (loops (snd restarted0) ! 0)))) (fst restarted0, snd restarted0) =
      Some (Err NotConnectedError, fst restarted0, snd restarted0)"
    by (rule readVArea_nil_client) (simp_all add: restarted0_def)
  have "tick plc_up 0 (fst restarted0, snd restarted0) =
      Some (fst restarted0, emit (EvLog NotConnectedError) (snd restarted0))"
    using rd by (rule tick_Err)
  moreover have "(0::nat) < length (loops (snd restarted0))"
    and "l_status (loops (snd restarted0) ! 0) = Live"
    by (simp_all add: restarted0_def loop0_def)
  ultimately have t: "loop_step plc_up 0 RecvTick (fst restarted0, snd restarted0) =
      Some (fst restarted0, emit (EvLog NotConnectedError) (snd restarted0))"
    by (simp add: loop_step.simps del: prod.collapse)
  show ?thesis using run_restart0 l c t by simp
qed

text \<open>
  C7, amended. In every state a history of calls and loop rounds reaches from a new
  viewer: the running loops whose signal has not been fired number one when the flag is
  set and zero otherwise, so never more than one; the loops running beside it are
  exactly the lingering ones, cancelled and not yet returned, and each of those can take
  the stop case of its \<^verbatim>\<open>select\<close>, which ends it. With the flag set
  \<^verbatim>\<open>startMonitoring\<close> returns without changing anything. Two calls of
  \<^verbatim>\<open>startMonitoring\<close> in a row: the second changes nothing, together they launch a
  goroutine only if the flag was clear, and exactly one uncancelled loop is running
  afterwards.
\<close>

theorem startMonitoring_single_loop:
  assumes "run env acts (NewPLCBinaryViewer world0) = Some (p, w)"
  shows "length (uncancelled_loops w) = (if running p then 1 else 0) \<and>
     length (live_loops w) = (if running p then 1 else 0) + length (lingering_loops w) \<and>
     (\<forall>g \<in> set (loops w). l_status g = Live \<longrightarrow>
        l_stop g \<in> closed w \<or> running p \<and> l_stop g = stopChan p) \<and>
     (\<forall>i < length (loops w).
        l_status (loops w ! i) = Live \<and> l_stop (loops w ! i) \<in> closed w \<longrightarrow>
        loop_step env i RecvStop (p, w) = Some (p, set_status i Returned w) \<and>
        length (live_loops (set_status i Returned w)) + 1 = length (live_loops w)) \<and>
     (running p \<longrightarrow> startMonitoring a n f (p, w) = Some (p, w)) \<and>
     (\<exists>s1. startMonitoring a n f (p, w) = Some s1 \<and>
        startMonitoring a' n' f' s1 = Some s1 \<and>
        running (fst s1) \<and> length (uncancelled_loops (snd s1)) = 1 \<and>
        length (live_loops (snd s1)) = length (live_loops w) + (if running p then 0 else 1))"
proof -
  have inv: "poller_inv (p, w)" using assms by (rule reachable_inv)
  then have nm: "\<not> mu p" by (simp add: poller_inv_iff)
  have count: "length (uncancelled_loops w) = (if running p then 1 else 0)"
    using inv by (rule uncancelled_loops_count)
  have live: "length (live_loops w) = (if running p then 1 else 0) + length (lingering_loops w)"
    using count live_loops_split [of w] by simp
  have others: "\<forall>g \<in> set (loops w). l_status g = Live \<longrightarrow>
      l_stop g \<in> closed w \<or> running p \<and> l_stop g = stopChan p"
    using inv unfolding poller_inv_iff by blast
  have ends: "\<forall>i < length (loops w).
        l_status (loops w ! i) = Live \<and> l_stop (loops w ! i) \<in> closed w \<longrightarrow>
        loop_step env i RecvStop (p, w) = Some (p, set_status i Returned w) \<and>
        length (live_loops (set_status i Returned w)) + 1 = length (live_loops w)"
    using lingering_returns by blast
  have noop: "startMonitoring a n f (p, w) = Some (p, w)" if "running p" for a n f
    using that nm by (simp add: startMonitoring_unfold)
  have "\<exists>s1. startMonitoring a n f (p, w) = Some s1"
    using nm by (simp add: startMonitoring_unfold)
  then obtain s1 where s1: "startMonitoring a n f (p, w) = Some s1" ..
  have inv1: "poller_inv s1" using inv s1 by (rule startMonitoring_inv)
  have r1: "running (fst s1)"
    using s1 nm by (auto simp: startMonitoring_unfold split: if_splits)
  have grow: "length (live_loops (snd s1)) = length (live_loops w) + (if running p then 0 else 1)"
    using s1 nm by (auto simp: startMonitoring_unfold live_loops_def split: if_splits)
  obtain p1 w1 where pw: "s1 = (p1, w1)" by (cases s1)
  have nm1: "\<not> mu p1" using inv1 pw by (simp add: poller_inv_iff)
  have again: "startMonitoring a' n' f' s1 = Some s1"
    using r1 nm1 pw by (simp add: startMonitoring_unfold)
  have "length (uncancelled_loops w1) = (if running p1 then 1 else 0)"
    using inv1 unfolding pw by (rule uncancelled_loops_count)
  then have one: "length (uncancelled_loops (snd s1)) = 1" using r1 pw by simp
  have ex: "\<exists>s1. startMonitoring a n f (p, w) = Some s1 \<and>
        startMonitoring a' n' f' s1 = Some s1 \<and>
        running (fst s1) \<and> length (uncancelled_loops (snd s1)) = 1 \<and>
        length (live_loops (snd s1)) = length (live_loops w) + (if running p then 0 else 1)"
    using s1 again r1 one grow by blast
  show ?thesis using count live others ends noop ex by blast
qed

theorem startMonitoring_single_loop_witness:
  "run plc_up [DoStart 100 1 True, DoStop, DoStart 100 1 True] (NewPLCBinaryViewer world0) =
     Some restarted0 \<and>
   running (fst restarted0) \<and>
   length (uncancelled_loops (snd restarted0)) = 1 \<and>
   length (live_loops (snd restarted0)) = 1 + length (lingering_loops (snd restarted0)) \<and>
   (0::nat) < length (loops (snd restarted0)) \<and>
   l_status (loops (snd restarted0) ! 0) = Live \<and>
   l_stop (loops (snd restarted0) ! 0) \<in> closed (snd restarted0) \<and>
   loop_step plc_up 0 RecvStop restarted0 =
     Some (fst restarted0, set_status 0 Returned (snd restarted0)) \<and>
   length (live_loops (set_status 0 Returned (snd restarted0))) + 1 =
     length (live_loops (snd restarted0)) \<and>
   startMonitoring 200 2 False restarted0 = Some restarted0"
proof -
  have r: "run plc_up [DoStart 100 1 True, DoStop, DoStart 100 1 True]
      (NewPLCBinaryViewer world0) = Some (fst restarted0, snd restarted0)"
    using run_restart0 by simp
  have g: "running (fst restarted0)"
    and i: "(0::nat) < length (loops (snd restarted0))"
    and l: "l_status (loops (snd restarted0) ! 0) = Live"
    and c: "l_stop (loops (snd restarted0) ! 0) \<in> closed (snd restarted0)"
    by (simp_all add: restarted0_def loop0_def)
  note t = startMonitoring_single_loop [OF r, where a = 200 and n = 2 and f = False]
  from t g have a: "length (uncancelled_loops (snd restarted0)) = 1"
    and b: "length (live_loops (snd restarted0)) = 1 + length (lingering_loops (snd restarted0))"
    and d: "startMonitoring 200 2 False (fst restarted0, snd restarted0) =
      Some (fst restarted0, snd restarted0)"
    by simp_all
  from t i l c have e: "loop_step plc_up 0 RecvStop (fst restarted0, snd restarted0) =
      Some (fst restarted0, set_status 0 Returned (snd restarted0)) \<and>
      length (live_loops (set_status 0 Returned (snd restarted0))) + 1 =
      length (live_loops (snd restarted0))"
    by blast
  show ?thesis using r g a b i l c d e by simp
qed

text \<open>
  C8. In every reachable state: no two loops share a channel. A \<^verbatim>\<open>startMonitoring\<close>
  that launches a loop (flag clear) gives it a channel that is new: not closed, not the
  channel of any earlier loop, not the viewer's previous one. With the flag set,
  \<^verbatim>\<open>stopMonitoring\<close> finds the channel open, closes it (it does not panic on a
  second close) and clears the flag; with the flag clear it changes nothing. Hence after
  any \<^verbatim>\<open>stopMonitoring\<close> a second one is a no-op, and a \<^verbatim>\<open>startMonitoring\<close> made
  right after it leaves the new loop, on an open channel, as the only running loop whose
  signal has not been fired.
\<close>

theorem stopMonitoring_fresh_signal:
  assumes "run env acts (NewPLCBinaryViewer world0) = Some (p, w)"
  shows "distinct (map l_stop (loops w)) \<and>
     (\<not> running p \<longrightarrow>
        startMonitoring a n f (p, w) =
          Some (p\<lparr>running := True, stopChan := made w\<rparr>,
                w\<lparr>made := made w + 1,
                  loops := loops w @ [\<lparr>l_stop = made w, l_start = a, l_len = n,
                                          l_sink = f, l_status = Live\<rparr>]\<rparr>) \<and>
        made w \<notin> closed w \<and> made w \<notin> l_stop ` set (loops w) \<and> made w \<noteq> stopChan p) \<and>
     (running p \<longrightarrow>
        stopChan p \<notin> closed w \<and>
        stopMonitoring (p, w) =
          Some (Ok (), p\<lparr>running := False\<rparr>,
                w\<lparr>closed := insert (stopChan p) (closed w)\<rparr>)) \<and>
     (\<not> running p \<longrightarrow> stopMonitoring (p, w) = Some (Ok (), p, w)) \<and>
     (\<exists>s1 s2. stopMonitoring (p, w) = Some (Ok (), s1) \<and> \<not> running (fst s1) \<and>
        stopMonitoring s1 = Some (Ok (), s1) \<and>
        startMonitoring a n f s1 = Some s2 \<and> running (fst s2) \<and>
        stopChan (fst s2) \<notin> closed (snd s2) \<and>
        uncancelled_loops (snd s2) =
          [\<lparr>l_stop = stopChan (fst s2), l_start = a, l_len = n, l_sink = f,
             l_status = Live\<rparr>])"
proof -
  have inv: "poller_inv (p, w)" using assms by (rule reachable_inv)
  then have nm: "\<not> mu p" and sc: "stopChan p < made w"
    and cl: "\<forall>c \<in> closed w. c < made w"
    and ls: "\<forall>g \<in> set (loops w). l_stop g < made w \<and> l_status g \<noteq> Crashed"
    and di: "distinct (map l_stop (loops w))"
    and ru: "running p \<longrightarrow> stopChan p \<notin> closed w \<and>
         (\<exists>g \<in> set (loops w). l_stop g = stopChan p \<and> l_status g = Live)"
    and ac: "\<forall>g \<in> set (loops w). l_stop g \<notin> closed w \<longrightarrow> running p \<and> l_stop g = stopChan p"
    unfolding poller_inv_iff by blast+
  have fresh: "made w \<notin> closed w \<and> made w \<notin> l_stop ` set (loops w) \<and> made w \<noteq> stopChan p"
    using cl ls sc by fastforce
  have start: "startMonitoring a n f (p, w) =
      Some (p\<lparr>running := True, stopChan := made w\<rparr>,
            w\<lparr>made := made w + 1,
              loops := loops w @ [\<lparr>l_stop = made w, l_start = a, l_len = n,
                                      l_sink = f, l_status = Live\<rparr>]\<rparr>)"
    if "\<not> running p"
    using that nm by (simp add: startMonitoring_unfold)
  have stop_r: "stopMonitoring (p, w) =
      Some (Ok (), p\<lparr>running := False\<rparr>, w\<lparr>closed := insert (stopChan p) (closed w)\<rparr>)"
    if "running p"
    using that nm ru by (simp add: stopMonitoring_unfold)
  have stop_n: "stopMonitoring (p, w) = Some (Ok (), p, w)" if "\<not> running p"
    using that nm by (simp add: stopMonitoring_unfold)
  define p1 where "p1 = p\<lparr>running := False\<rparr>"
  define w1 where "w1 = (if running p then w\<lparr>closed := insert (stopChan p) (closed w)\<rparr> else w)"
  have s1: "stopMonitoring (p, w) = Some (Ok (), p1, w1)"
    using stop_r stop_n by (cases "running p") (simp_all add: p1_def w1_def)
  have nr1: "\<not> running p1" and nm1: "\<not> mu p1" using nm by (simp_all add: p1_def)
  have s11: "stopMonitoring (p1, w1) = Some (Ok (), p1, w1)"
    using nr1 nm1 by (simp add: stopMonitoring_unfold)
  have inv1: "poller_inv (p1, w1)" using inv s1 by (rule stopMonitoring_inv)
  then have cl1: "\<forall>c \<in> closed w1. c < made w1"
    and ac1: "\<forall>g \<in> set (loops w1). l_stop g \<notin> closed w1 \<longrightarrow> running p1 \<and> l_stop g = stopChan p1"
    unfolding poller_inv_iff by blast+
  have all_closed: "\<forall>g \<in> set (loops w1). l_stop g \<in> closed w1"
    using ac1 nr1 by blast
  have open1: "made w1 \<notin> closed w1" using cl1 by fastforce
  define g where "g = \<lparr>l_stop = made w1, l_start = a, l_len = n, l_sink = f, l_status = Live\<rparr>"
  define p2 where "p2 = p1\<lparr>running := True, stopChan := made w1\<rparr>"
  define w2 where "w2 = w1\<lparr>made := made w1 + 1, loops := loops w1 @ [g]\<rparr>"
  have s2: "startMonitoring a n f (p1, w1) = Some (p2, w2)"
    using nr1 nm1 by (simp add: startMonitoring_unfold p2_def w2_def g_def)
  have act: "uncancelled_loops w2 = [g]"
    unfolding w2_def g_def using all_closed open1 by (rule uncancelled_loops_snoc)
  have fin: "running (fst (p2, w2)) \<and> stopChan (fst (p2, w2)) \<notin> closed (snd (p2, w2)) \<and>
      uncancelled_loops (snd (p2, w2)) =
          [\<lparr>l_stop = stopChan (fst (p2, w2)), l_start = a, l_len = n, l_sink = f,
             l_status = Live\<rparr>]"
    using act open1 by (simp add: p2_def w2_def g_def)
  have ex: "\<exists>s1 s2. stopMonitoring (p, w) = Some (Ok (), s1) \<and> \<not> running (fst s1) \<and>
        stopMonitoring s1 = Some (Ok (), s1) \<and>
        startMonitoring a n f s1 = Some s2 \<and> running (fst s2) \<and>
        stopChan (fst s2) \<notin> closed (snd s2) \<and>
        uncancelled_loops (snd s2) =
          [\<lparr>l_stop = stopChan (fst s2), l_start = a, l_len = n, l_sink = f,
             l_status = Live\<rparr>]"
    using s1 nr1 s11 s2 fin by (intro exI [of _ "(p1, w1)"] exI [of _ "(p2, w2)"]) simp
  show ?thesis
    using di fresh start stop_r stop_n ru ex by blast
qed

theorem stopMonitoring_fresh_signal_witness:
  "run plc_up [] (NewPLCBinaryViewer world0) = Some (NewPLCBinaryViewer world0) \<and>
   \<not> running (fst (NewPLCBinaryViewer world0)) \<and>
   startMonitoring 100 1 True (NewPLCBinaryViewer world0) = Some polling0 \<and>
   run plc_up [DoStart 100 1 True] (NewPLCBinaryViewer world0) = Some polling0 \<and>
   running (fst polling0) \<and>
   stopChan (fst polling0) \<notin> closed (snd polling0) \<and>
   stopMonitoring polling0 = Some (Ok (), stopped0)"
proof -
  have r0: "run plc_up [] (NewPLCBinaryViewer world0) =
      Some (fst (NewPLCBinaryViewer world0), snd (NewPLCBinaryViewer world0))"
    by simp
  have n0: "\<not> running (fst (NewPLCBinaryViewer world0))"
    by (simp add: NewPLCBinaryViewer_def)
  have r1: "run plc_up [DoStart 100 1 True] (NewPLCBinaryViewer world0) =
      Some (fst polling0, snd polling0)"
    using run_start0 by simp
  have g1: "running (fst polling0)" by (simp add: polling0_def)
  from stopMonitoring_fresh_signal [OF r0, of 100 1 True] n0
  have a: "startMonitoring 100 1 True (NewPLCBinaryViewer world0) = Some polling0"
    by (simp add: NewPLCBinaryViewer_def world0_def polling0_def loop0_def)
  from stopMonitoring_fresh_signal [OF r1, of 100 1 True] g1
  have b: "stopChan (fst polling0) \<notin> closed (snd polling0)"
    by blast
  show ?thesis using r0 n0 a r1 g1 b stop_polling0 by simp
qed

lemma readVArea_trace:
  "readVArea env a n (p, w) = Some (r, p', w') \<Longrightarrow>
   \<exists>evs. trace w' = trace w @ evs \<and> (\<forall>bits. EvSink bits \<notin> set evs)"
  by (auto simp: readVArea.simps Lock_def Let_def emit_def
      split: option.splits if_splits prod.splits)

lemma tick_returns:
  assumes "\<not> mu p"
  shows "\<exists>s2. tick env i (p, w) = Some s2"
proof -
  let ?n = "max 1 (min 4 (l_len (loops w ! i)))"
  let ?a = "l_start (loops w ! i)"
  from assms obtain r w' where rd: "readVArea env ?a ?n (p, w) = Some (r, p, w')"
    using readVArea_returns by blast
  show ?thesis
  proof (cases r)
    case (Ok data)
    with rd show ?thesis by (simp only: tick_Ok) blast
  next
    case (Err e)
    with rd show ?thesis by (simp only: tick_Err) blast
  next
    case Panic
    have "0 \<le> ?n" by simp
    with rd Panic readVArea_no_panic show ?thesis by blast
  qed
qed

lemma step_leaves_loop:
  assumes st: "step env act (p, w) = Some (p2, w2)"
    and k: "k < length (loops w)"
    and live: "l_status (loops w ! k) = Live"
    and gone: "l_status (loops w2 ! k) \<noteq> Live"
  shows "act = DoLoop k RecvStop \<and> l_stop (loops w ! k) \<in> closed w"
proof -
  have same: False if "same_poller (p, w) (p2, w2)"
    using that live gone by (simp add: same_poller_def)
  show ?thesis
  proof (cases act)
    case (DoConnect ip)
    with st obtain r where "connectPLC env ip (p, w) = Some (r, p2, w2)"
      by (cases "connectPLC env ip (p, w)") auto
    then have "same_poller (p, w) (p2, w2)" by (rule connectPLC_same)
    then show ?thesis using same by blast
  next
    case DoDisconnect
    with st have "disconnectPLC (p, w) = Some (p2, w2)" by simp
    then have "same_poller (p, w) (p2, w2)" by (rule disconnectPLC_same)
    then show ?thesis using same by blast
  next
    case (DoReadOnce x n)
    with st obtain r where "readOnce env x n (p, w) = Some (r, p2, w2)"
      by (cases "readOnce env x n (p, w)") (auto split: outcome.splits)
    then have "same_poller (p, w) (p2, w2)" by (rule readOnce_same)
    then show ?thesis using same by blast
  next
    case (DoStart x n f)
    with st have "startMonitoring x n f (p, w) = Some (p2, w2)" by simp
    then have "loops w2 ! k = loops w ! k"
      using k by (auto simp: startMonitoring_unfold nth_append split: if_splits)
    with live gone show ?thesis by simp
  next
    case DoStop
    with st obtain u where "stopMonitoring (p, w) = Some (Ok u, p2, w2)"
      by (cases "stopMonitoring (p, w)") (auto split: outcome.splits)
    then have "loops w2 = loops w"
      by (auto simp: stopMonitoring_unfold split: if_splits)
    with live gone show ?thesis by simp
  next
    case (DoLoop j c)
    with st have ls: "loop_step env j c (p, w) = Some (p2, w2)" by simp
    show ?thesis
    proof (cases c)
      case RecvTick
      with ls have "tick env j (p, w) = Some (p2, w2)"
        by (auto simp: loop_step.simps split: if_splits)
      then have "same_poller (p, w) (p2, w2)" by (rule tick_same)
      then show ?thesis using same by blast
    next
      case RecvStop
      with ls have j: "j < length (loops w)" and cj: "l_stop (loops w ! j) \<in> closed w"
        and w2: "w2 = set_status j Returned w"
        by (auto simp: loop_step.simps split: if_splits)
      have "j = k"
      proof (rule ccontr)
        assume "j \<noteq> k"
        then have "loops w2 ! k = loops w ! k" by (simp add: w2 set_status_def)
        with live gone show False by simp
      qed
      with cj DoLoop RecvStop show ?thesis by simp
    qed
  qed
qed

text \<open>
  C9. A tick of a loop whose read returns an error: the round completes, the trace
  gains the transport calls of the read and then the log line of the error, with no
  call of the sink; the goroutine is still in its loop and its next tick can run. And in
  any step of the system, a goroutine that is in its loop before the step and not after
  it has taken the stop case of its \<^verbatim>\<open>select\<close>, with its channel closed: nothing else
  ends a loop.
\<close>

theorem tick_failure_continues:
  "(i < length (loops w) \<and> l_status (loops w ! i) = Live \<and>
    readVArea env (l_start (loops w ! i)) (max 1 (min 4 (l_len (loops w ! i)))) (p, w) =
      Some (Err e, p', w')
    \<longrightarrow>
      loop_step env i RecvTick (p, w) = Some (p', emit (EvLog e) w') \<and>
      (\<exists>evs. trace (emit (EvLog e) w') = trace w @ evs @ [EvLog e] \<and>
         (\<forall>bits. EvSink bits \<notin> set evs)) \<and>
      i < length (loops (emit (EvLog e) w')) \<and>
      l_status (loops (emit (EvLog e) w') ! i) = Live \<and>
      (\<exists>s2. loop_step env i RecvTick (p', emit (EvLog e) w') = Some s2)) \<and>
   (step env act (p, w) = Some (q, v) \<and> k < length (loops w) \<and>
    l_status (loops w ! k) = Live \<and> l_status (loops v ! k) \<noteq> Live
    \<longrightarrow> act = DoLoop k RecvStop \<and> l_stop (loops w ! k) \<in> closed w)"
proof (intro conjI impI)
  assume a: "i < length (loops w) \<and> l_status (loops w ! i) = Live \<and>
    readVArea env (l_start (loops w ! i)) (max 1 (min 4 (l_len (loops w ! i)))) (p, w) =
      Some (Err e, p', w')"
  then have rd: "readVArea env (l_start (loops w ! i)) (max 1 (min 4 (l_len (loops w ! i))))
      (p, w) = Some (Err e, p', w')"
    and i: "i < length (loops w)" and live: "l_status (loops w ! i) = Live"
    by simp_all
  have t: "tick env i (p, w) = Some (p', emit (EvLog e) w')"
    using rd by (rule tick_Err)
  have sp: "same_poller (p, w) (p', w')" using rd by (rule readVArea_same)
  then have lw: "loops w' = loops w" and mw: "mu p' = mu p"
    by (simp_all add: same_poller_def)
  have nm: "\<not> mu p"
    using rd by (auto simp: readVArea.simps Lock_def split: if_splits)
  show "loop_step env i RecvTick (p, w) = Some (p', emit (EvLog e) w')"
    using i live t by (simp add: loop_step.simps)
  from readVArea_trace [OF rd] obtain evs where
    "trace w' = trace w @ evs" "\<forall>bits. EvSink bits \<notin> set evs" by blast
  then show "\<exists>evs. trace (emit (EvLog e) w') = trace w @ evs @ [EvLog e] \<and>
      (\<forall>bits. EvSink bits \<notin> set evs)"
    by (auto simp: emit_def)
  show "i < length (loops (emit (EvLog e) w'))" using i lw by simp
  show "l_status (loops (emit (EvLog e) w') ! i) = Live" using live lw by simp
  have "\<exists>s2. tick env i (p', emit (EvLog e) w') = Some s2"
    using nm mw by (intro tick_returns) simp
  then show "\<exists>s2. loop_step env i RecvTick (p', emit (EvLog e) w') = Some s2"
    using i live lw by (simp add: loop_step.simps)
next
  assume "step env act (p, w) = Some (q, v) \<and> k < length (loops w) \<and>
    l_status (loops w ! k) = Live \<and> l_status (loops v ! k) \<noteq> Live"
  then show "act = DoLoop k RecvStop" and "l_stop (loops w ! k) \<in> closed w"
    using step_leaves_loop by blast+
qed

theorem tick_failure_continues_witness:
  "(0::nat) < length (loops (snd polling0)) \<and>
   l_status (loops (snd polling0) ! 0) = Live \<and>
   readVArea plc_up 100 1 polling0 = Some (Err NotConnectedError, polling0) \<and>
   loop_step plc_up 0 RecvTick polling0 =
     Some (fst polling0, emit (EvLog NotConnectedError) (snd polling0)) \<and>
   step plc_up (DoLoop 0 RecvStop) stopped0 =
     Some (fst stopped0, set_status 0 Returned (snd stopped0)) \<and>
   l_status (loops (snd stopped0) ! 0) = Live \<and>
   l_status (loops (set_status 0 Returned (snd stopped0)) ! 0) \<noteq> Live \<and>
   l_stop (loops (snd stopped0) ! 0) \<in> closed (snd stopped0)"
proof -
  have i: "(0::nat) < length (loops (snd polling0))"
    and live: "l_status (loops (snd polling0) ! 0) = Live"
    and par: "l_start (loops (snd polling0) ! 0) = 100"
      "max 1 (min 4 (l_len (loops (snd polling0) ! 0))) = 1"
    by (simp_all add: polling0_def loop0_def)
  have rd: "readVArea plc_up 100 1 (fst polling0, snd polling0) =
      Some (Err NotConnectedError, fst polling0, snd polling0)"
    by (rule readVArea_nil_client) (simp_all add: polling0_def)
  have st: "step plc_up (DoLoop 0 RecvStop) (fst stopped0, snd stopped0) =
      Some (fst stopped0, set_status 0 Returned (snd stopped0))"
    by (simp add: loop_step.simps stopped0_def loop0_def)
  have k: "(0::nat) < length (loops (snd stopped0))"
    and live2: "l_status (loops (snd stopped0) ! 0) = Live"
    and gone: "l_status (loops (set_status 0 Returned (snd stopped0)) ! 0) \<noteq> Live"
    by (simp_all add: stopped0_def loop0_def set_status_def)
  from tick_failure_continues [where i = 0 and w = "snd polling0" and env = plc_up
      and p = "fst polling0" and e = NotConnectedError and p' = "fst polling0"
      and w' = "snd polling0"] i live rd par
  have a: "loop_step plc_up 0 RecvTick (fst polling0, snd polling0) =
      Some (fst polling0, emit (EvLog NotConnectedError) (snd polling0))"
    by simp
  from tick_failure_continues [where w = "snd stopped0" and env = plc_up
      and p = "fst stopped0" and act = "DoLoop 0 RecvStop" and q = "fst stopped0"
      and v = "set_status 0 Returned (snd stopped0)" and k = 0]
    st k live2 gone
  have b: "l_stop (loops (snd stopped0) ! 0) \<in> closed (snd stopped0)"
    by blast
  show ?thesis using i live rd a st live2 gone b by simp
qed

end
